theory Spec2Isabelle
  imports Complex_Main "HOL-Library.Log_Nat" "HOL-Library.Sublist"
begin

section \<open>Python arithmetic used by the plug-in\<close>

text \<open>
  The plug-in computes a guide position as \<^verbatim>\<open>int((image_width / v_split) * (i + 1))\<close>.
  In Python 3 the operator \<^verbatim>\<open>/\<close> on two ints is true division: its result is the
  binary64 float nearest to the exact quotient (ties to even), and it raises
  \<^verbatim>\<open>OverflowError\<close> when that float would not be finite. Multiplying the float by an
  int converts the int to a float and multiplies by the IEEE 754 rules, and \<^verbatim>\<open>int\<close>
  truncates towards zero. None of this is real-number arithmetic, so it is modelled bit
  for bit: a finite float is a pair of integers \<open>m\<close> and \<open>e\<close> standing for \<open>m * 2 ^ e\<close>.
\<close>

datatype exn = OverflowError | ZeroDivisionError | ValueError | HostError

datatype pyfloat = Finite int int | Infinity bool | NaN

text \<open>The integer nearest to \<open>n / d\<close> for \<open>0 \<le> n\<close> and \<open>0 < d\<close>, ties to the even one.\<close>

definition round_half_even :: "int \<Rightarrow> int \<Rightarrow> int" where
  "round_half_even n d =
     (let q = n div d; r = n mod d in
      if 2 * r < d then q
      else if d < 2 * r then q + 1
      else if even q then q else q + 1)"

text \<open>
  Rounding of the exact rational \<open>a / b\<close> (with \<open>0 < b\<close>) to binary64. \<open>E\<close> is the
  binary exponent of the quotient, found from the bit lengths; the significand keeps 53
  bits, fewer below \<open>2 ^ - 1022\<close> (gradual underflow), and a result of \<open>2 ^ 1024\<close> or more
  is infinite. The flag of \<open>Infinity\<close> is the sign: \<open>True\<close> for minus infinity.
\<close>

definition b64_round :: "int \<Rightarrow> int \<Rightarrow> pyfloat" where
  "b64_round a b =
     (if a = 0 then Finite 0 0
      else
        let n = \<bar>a\<bar>;
            d = bitlen n - bitlen b;
            E = (if b * 2 ^ nat d \<le> n * 2 ^ nat (- d) then d else d - 1);
            s = min (52 - E) 1074;
            q = round_half_even (n * 2 ^ nat s) (b * 2 ^ nat (- s))
        in if 2 ^ 1024 \<le> q * 2 ^ nat (- s) then Infinity (a < 0)
           else Finite (sgn a * q) (- s))"

text \<open>\<^verbatim>\<open>a / b\<close> on two ints.\<close>

definition py_truediv :: "int \<Rightarrow> int \<Rightarrow> exn + pyfloat" where
  "py_truediv a b =
     (if b = 0 then Inl ZeroDivisionError
      else case b64_round (sgn b * a) \<bar>b\<bar> of
             Finite m e \<Rightarrow> Inr (Finite m e)
           | _ \<Rightarrow> Inl OverflowError)"

text \<open>The conversion of an int operand to a float.\<close>

definition py_float_of_int :: "int \<Rightarrow> exn + pyfloat" where
  "py_float_of_int k =
     (case b64_round k 1 of
        Finite m e \<Rightarrow> Inr (Finite m e)
      | _ \<Rightarrow> Inl OverflowError)"

text \<open>The product of two floats; it never raises, an overflow gives an infinity.\<close>

fun float_mul :: "pyfloat \<Rightarrow> pyfloat \<Rightarrow> pyfloat" where
  "float_mul (Finite m1 e1) (Finite m2 e2) =
     b64_round (m1 * m2 * 2 ^ nat (e1 + e2)) (2 ^ nat (- (e1 + e2)))"
| "float_mul (Infinity s) (Finite m e) =
     (if m = 0 then NaN else Infinity (s \<noteq> (m < 0)))"
| "float_mul (Finite m e) (Infinity s) =
     (if m = 0 then NaN else Infinity (s \<noteq> (m < 0)))"
| "float_mul (Infinity s1) (Infinity s2) = Infinity (s1 \<noteq> s2)"
| "float_mul NaN _ = NaN"
| "float_mul _ NaN = NaN"

text \<open>\<^verbatim>\<open>x * k\<close> for a float \<open>x\<close> and an int \<open>k\<close>.\<close>

definition py_mul_int :: "pyfloat \<Rightarrow> int \<Rightarrow> exn + pyfloat" where
  "py_mul_int x k =
     (case py_float_of_int k of
        Inl err \<Rightarrow> Inl err
      | Inr y \<Rightarrow> Inr (float_mul x y))"

text \<open>\<^verbatim>\<open>int(x)\<close> on a float: truncation towards zero.\<close>

fun py_int :: "pyfloat \<Rightarrow> exn + int" where
  "py_int (Finite m e) = Inr (sgn m * ((\<bar>m\<bar> * 2 ^ nat e) div 2 ^ nat (- e)))"
| "py_int (Infinity s) = Inl OverflowError"
| "py_int NaN = Inl ValueError"

text \<open>\<^verbatim>\<open>int((extent / split) * (i + 1))\<close>, lines 63 and 69.\<close>

definition guide_pos :: "int \<Rightarrow> int \<Rightarrow> int \<Rightarrow> exn + int" where
  "guide_pos extent split i =
     (case py_truediv extent split of
        Inl err \<Rightarrow> Inl err
      | Inr x \<Rightarrow>
          (case py_mul_int x (i + 1) of
             Inl err \<Rightarrow> Inl err
           | Inr y \<Rightarrow> py_int y))"

text \<open>\<^verbatim>\<open>int(extent / 2)\<close>, lines 74 and 75.\<close>

definition centre_pos :: "int \<Rightarrow> exn + int" where
  "centre_pos extent =
     (case py_truediv extent 2 of
        Inl err \<Rightarrow> Inl err
      | Inr x \<Rightarrow> py_int x)"

section \<open>The host: image, guides and undo groups\<close>

text \<open>
  The image belongs to the host application. The plug-in reads its width and height and
  calls \<^verbatim>\<open>undo_group_start\<close>, \<^verbatim>\<open>add_vguide\<close>, \<^verbatim>\<open>add_hguide\<close> and
  \<^verbatim>\<open>undo_group_end\<close> on it. The record keeps what those calls change: the guide
  list (the host appends), the number of open undo groups, and the calls the image has
  received, oldest first. A guide insertion can fail on the host's side; then the call is
  recorded as \<open>Rejected\<close>, the guide list is unchanged and the call raises. Reading the
  size and opening or closing an undo group are taken not to fail, and closing a group
  leaves the guides of the image as they are.
\<close>

datatype guide = VGuide int | HGuide int

datatype host_call = UndoGroupStart | UndoGroupEnd | Added guide | Rejected guide

record image =
  width :: int
  height :: int
  guides :: "guide list"
  undo_depth :: nat
  calls :: "host_call list"

datatype run_mode = INTERACTIVE | NONINTERACTIVE | WITH_LAST_VALS

record config =
  h_split :: int
  v_split :: int
  make_centre :: bool
  draw_borders :: bool

text \<open>
  What the plug-in cannot decide: whether the host refuses a guide on the image as it is,
  and what the dialog of the interactive mode returns (whether the user confirmed, and
  the parameters as the user left them).
\<close>

record host =
  refuses :: "image \<Rightarrow> guide \<Rightarrow> bool"
  dialog_run :: "config \<Rightarrow> bool \<times> config"

definition get_width :: "image \<Rightarrow> int" where
  "get_width img = width img"

definition get_height :: "image \<Rightarrow> int" where
  "get_height img = height img"

definition undo_group_start :: "image \<Rightarrow> image" where
  "undo_group_start img =
     img\<lparr>undo_depth := Suc (undo_depth img), calls := calls img @ [UndoGroupStart]\<rparr>"

definition undo_group_end :: "image \<Rightarrow> image" where
  "undo_group_end img =
     img\<lparr>undo_depth := undo_depth img - 1, calls := calls img @ [UndoGroupEnd]\<rparr>"

definition add_guide :: "host \<Rightarrow> guide \<Rightarrow> image \<Rightarrow> exn option \<times> image" where
  "add_guide hst g img =
     (if refuses hst img g
      then (Some HostError, img\<lparr>calls := calls img @ [Rejected g]\<rparr>)
      else (None, img\<lparr>guides := guides img @ [g], calls := calls img @ [Added g]\<rparr>))"

definition add_vguide :: "host \<Rightarrow> int \<Rightarrow> image \<Rightarrow> exn option \<times> image" where
  "add_vguide hst x img = add_guide hst (VGuide x) img"

definition add_hguide :: "host \<Rightarrow> int \<Rightarrow> image \<Rightarrow> exn option \<times> image" where
  "add_hguide hst y img = add_guide hst (HGuide y) img"

section \<open>The procedure\<close>

datatype pdb_status = SUCCESS | CANCEL | CALLING_ERROR | EXECUTION_ERROR

text \<open>\<^verbatim>\<open>GLib.Error(...)\<close>, with the message it was given, if any.\<close>

datatype glib_error = GLib_Error "string option"

record return_values =
  status :: pdb_status
  error :: glib_error

definition new_return_values :: "pdb_status \<Rightarrow> glib_error \<Rightarrow> return_values" where
  "new_return_values st err = \<lparr>status = st, error = err\<rparr>"

text \<open>
  Statements of a \<^verbatim>\<open>try\<close> block in sequence: the second runs on the image the first
  left, unless the first raised.
\<close>

definition and_then ::
  "exn option \<times> image \<Rightarrow> (image \<Rightarrow> exn option \<times> image) \<Rightarrow> exn option \<times> image" where
  "and_then r f = (case r of (None, img) \<Rightarrow> f img | (Some e, img) \<Rightarrow> (Some e, img))"

text \<open>
  A statement \<^verbatim>\<open>image.add_xguide(expr)\<close>: the argument is evaluated first, and when
  that raises the host is not called.
\<close>

definition add_at ::
  "(int \<Rightarrow> image \<Rightarrow> exn option \<times> image) \<Rightarrow> exn + int \<Rightarrow> image \<Rightarrow> exn option \<times> image" where
  "add_at add pos img = (case pos of Inl e \<Rightarrow> (Some e, img) | Inr p \<Rightarrow> add p img)"

text \<open>
  The loops of lines 62 to 64 and 68 to 70, over the values of \<^verbatim>\<open>range(split - 1)\<close>.
\<close>

fun split_loop ::
  "(int \<Rightarrow> image \<Rightarrow> exn option \<times> image) \<Rightarrow> int \<Rightarrow> int \<Rightarrow> int list \<Rightarrow> image
     \<Rightarrow> exn option \<times> image" where
  "split_loop add extent split [] img = (None, img)"
| "split_loop add extent split (i # rest) img =
     and_then (add_at add (guide_pos extent split i) img)
       (split_loop add extent split rest)"

definition py_range :: "int \<Rightarrow> int list" where
  "py_range n = [0..n - 1]"

definition add_splits ::
  "(int \<Rightarrow> image \<Rightarrow> exn option \<times> image) \<Rightarrow> int \<Rightarrow> int \<Rightarrow> image \<Rightarrow> exn option \<times> image" where
  "add_splits add extent split img =
     (if split > 1 then split_loop add extent split (py_range (split - 1)) img
      else (None, img))"

definition add_centre :: "host \<Rightarrow> int \<Rightarrow> int \<Rightarrow> image \<Rightarrow> exn option \<times> image" where
  "add_centre hst image_width image_height img =
     and_then (add_at (add_vguide hst) (centre_pos image_width) img)
       (add_at (add_hguide hst) (centre_pos image_height))"

definition add_borders :: "host \<Rightarrow> int \<Rightarrow> int \<Rightarrow> image \<Rightarrow> exn option \<times> image" where
  "add_borders hst image_width image_height img =
     and_then (and_then (and_then
       (add_vguide hst 0 img)
       (add_hguide hst 0))
       (add_vguide hst image_width))
       (add_hguide hst image_height)"

text \<open>The body of the \<^verbatim>\<open>try\<close>, lines 60 to 82.\<close>

definition try_body :: "host \<Rightarrow> config \<Rightarrow> int \<Rightarrow> int \<Rightarrow> image \<Rightarrow> exn option \<times> image" where
  "try_body hst cfg image_width image_height img =
     and_then (and_then (and_then
       (add_splits (add_vguide hst) image_width (v_split cfg) img)
       (add_splits (add_hguide hst) image_height (h_split cfg)))
       (\<lambda>img. if make_centre cfg then add_centre hst image_width image_height img
              else (None, img)))
       (\<lambda>img. if draw_borders cfg then add_borders hst image_width image_height img
              else (None, img))"

text \<open>
  Lines 50 to 89: the parameters are those read from the configuration after the dialog,
  if there was one. Every exception of the \<^verbatim>\<open>try\<close> block is an \<^verbatim>\<open>Exception\<close>, so
  the handler catches it.
\<close>

definition place_guides :: "host \<Rightarrow> image option \<Rightarrow> config \<Rightarrow> return_values \<times> image option" where
  "place_guides hst image_arg cfg =
     (case image_arg of
        None \<Rightarrow> (new_return_values CALLING_ERROR (GLib_Error None), None)
      | Some img \<Rightarrow>
          let image_width = get_width img;
              image_height = get_height img
          in (case try_body hst cfg image_width image_height (undo_group_start img) of
                (Some e, img') \<Rightarrow>
                  (new_return_values EXECUTION_ERROR (GLib_Error None),
                   Some (undo_group_end img'))
              | (None, img') \<Rightarrow>
                  (new_return_values SUCCESS (GLib_Error None),
                   Some (undo_group_end img'))))"

text \<open>The whole procedure, lines 28 to 89.\<close>

definition run_quick_guides ::
  "host \<Rightarrow> run_mode \<Rightarrow> image option \<Rightarrow> config \<Rightarrow> return_values \<times> image option" where
  "run_quick_guides hst mode image_arg cfg =
     (if mode = INTERACTIVE then
        (case dialog_run hst cfg of
           (False, cfg') \<Rightarrow> (new_return_values CANCEL (GLib_Error None), image_arg)
         | (True, cfg') \<Rightarrow> place_guides hst image_arg cfg')
      else place_guides hst image_arg cfg)"

text \<open>The parameters the procedure reads at lines 45 to 48.\<close>

definition params :: "host \<Rightarrow> run_mode \<Rightarrow> config \<Rightarrow> config" where
  "params hst mode cfg = (if mode = INTERACTIVE then snd (dialog_run hst cfg) else cfg)"

text \<open>What an invocation did to an image: the calls and the guides it appended.\<close>

definition new_calls :: "image \<Rightarrow> image \<Rightarrow> host_call list" where
  "new_calls img img' = drop (length (calls img)) (calls img')"

definition new_guides :: "image \<Rightarrow> image \<Rightarrow> guide list" where
  "new_guides img img' = drop (length (guides img)) (guides img')"

section \<open>Vocabulary for the properties\<close>

text \<open>The guides an invocation passed to the host, accepted or not, in call order.\<close>

fun requested :: "host_call list \<Rightarrow> guide list" where
  "requested [] = []"
| "requested (Added g # cs) = g # requested cs"
| "requested (Rejected g # cs) = g # requested cs"
| "requested (UndoGroupStart # cs) = requested cs"
| "requested (UndoGroupEnd # cs) = requested cs"

fun verticals :: "guide list \<Rightarrow> int list" where
  "verticals [] = []"
| "verticals (VGuide x # gs) = x # verticals gs"
| "verticals (HGuide y # gs) = verticals gs"

fun horizontals :: "guide list \<Rightarrow> int list" where
  "horizontals [] = []"
| "horizontals (VGuide x # gs) = horizontals gs"
| "horizontals (HGuide y # gs) = y # horizontals gs"

fun in_canvas :: "int \<Rightarrow> int \<Rightarrow> guide \<Rightarrow> bool" where
  "in_canvas W H (VGuide x) = (0 \<le> x \<and> x \<le> W)"
| "in_canvas W H (HGuide y) = (0 \<le> y \<and> y \<le> H)"

text \<open>
  The arguments of the insertion calls of the \<^verbatim>\<open>try\<close> block, in program order, each
  one a guide or the exception its evaluation raises. Running the block is running this
  list until an evaluation or the host raises (\<open>exec\<close>).
\<close>

fun guide_at :: "(int \<Rightarrow> guide) \<Rightarrow> exn + int \<Rightarrow> exn + guide" where
  "guide_at mk (Inl e) = Inl e"
| "guide_at mk (Inr p) = Inr (mk p)"

definition split_plan :: "(int \<Rightarrow> guide) \<Rightarrow> int \<Rightarrow> int \<Rightarrow> (exn + guide) list" where
  "split_plan mk extent split =
     (if split > 1
      then map (\<lambda>i. guide_at mk (guide_pos extent split i)) (py_range (split - 1))
      else [])"

definition centre_plan :: "config \<Rightarrow> int \<Rightarrow> int \<Rightarrow> (exn + guide) list" where
  "centre_plan cfg W H =
     (if make_centre cfg
      then [guide_at VGuide (centre_pos W), guide_at HGuide (centre_pos H)]
      else [])"

definition border_guides :: "config \<Rightarrow> int \<Rightarrow> int \<Rightarrow> guide list" where
  "border_guides cfg W H =
     (if draw_borders cfg then [VGuide 0, HGuide 0, VGuide W, HGuide H] else [])"

definition plan :: "config \<Rightarrow> int \<Rightarrow> int \<Rightarrow> (exn + guide) list" where
  "plan cfg W H =
     split_plan VGuide W (v_split cfg) @ split_plan HGuide H (h_split cfg)
       @ centre_plan cfg W H @ map Inr (border_guides cfg W H)"

text \<open>The guides of a plan, leaving out the arguments whose evaluation raises.\<close>

fun planned :: "(exn + guide) list \<Rightarrow> guide list" where
  "planned [] = []"
| "planned (Inl e # p) = planned p"
| "planned (Inr g # p) = g # planned p"

fun exec :: "host \<Rightarrow> (exn + guide) list \<Rightarrow> image \<Rightarrow> exn option \<times> image" where
  "exec hst [] img = (None, img)"
| "exec hst (Inl e # rest) img = (Some e, img)"
| "exec hst (Inr g # rest) img = and_then (add_guide hst g img) (exec hst rest)"

text \<open>
  How a run of a plan can end: with every guide of the plan added, at an argument whose
  evaluation raises, or at a guide the host refuses. \<open>gs\<close> are the guides added and
  \<open>tail\<close> is the refused call, if any.
\<close>

definition outcome ::
  "(exn + guide) list \<Rightarrow> exn option \<Rightarrow> guide list \<Rightarrow> host_call list \<Rightarrow> bool" where
  "outcome p r gs tail \<longleftrightarrow>
     r = None \<and> tail = [] \<and> p = map Inr gs
     \<or> (\<exists>e rest. r = Some e \<and> tail = [] \<and> p = map Inr gs @ Inl e # rest)
     \<or> (\<exists>g rest. r = Some HostError \<and> tail = [Rejected g] \<and> p = map Inr gs @ Inr g # rest)"

text \<open>
  Positions \<open>ps\<close> that split an extent into \<open>split\<close> bands: one position for each
  \<open>k\<close> from 1 to \<open>split - 1\<close>, the \<open>k\<close>-th at \<open>\<lfloor>extent * k / split\<rfloor>\<close> whenever
  \<open>extent * k / split\<close> is not an integer or \<open>extent / split\<close> is one, never
  decreasing, and increasing when the extent is at least the number of bands.
\<close>

definition evenly_split :: "int \<Rightarrow> int \<Rightarrow> int list \<Rightarrow> bool" where
  "evenly_split extent split ps \<longleftrightarrow>
     length ps = nat (split - 1) \<and>
     (\<forall>k \<in> {1..split - 1}.
        (\<not> split dvd extent * k \<or> split dvd extent) \<longrightarrow>
        ps ! nat (k - 1) = extent * k div split) \<and>
     sorted ps \<and>
     (split \<le> extent \<longrightarrow> sorted_wrt (<) ps)"

text \<open>
  The positions on one axis that the centre and border steps ask for: the centre
  position, when its evaluation does not raise, and the two borders.
\<close>

definition other_positions :: "bool \<Rightarrow> bool \<Rightarrow> int \<Rightarrow> int list" where
  "other_positions centre borders extent =
     (if centre then (case centre_pos extent of Inr c \<Rightarrow> [c] | Inl e \<Rightarrow> []) else [])
       @ (if borders then [0, extent] else [])"

section \<open>Hosts and images for the examples\<close>

text \<open>
  A host that accepts every guide, one whose dialog is cancelled, and one that refuses
  every horizontal guide; an image without guides.
\<close>

definition never_refuses :: "image \<Rightarrow> guide \<Rightarrow> bool" where
  "never_refuses img g = False"

fun refuses_horizontal :: "image \<Rightarrow> guide \<Rightarrow> bool" where
  "refuses_horizontal img (HGuide y) = True"
| "refuses_horizontal img (VGuide x) = False"

definition confirm_dialog :: "config \<Rightarrow> bool \<times> config" where
  "confirm_dialog cfg = (True, cfg)"

definition cancel_dialog :: "config \<Rightarrow> bool \<times> config" where
  "cancel_dialog cfg = (False, cfg)"

definition willing_host :: host where
  "willing_host = \<lparr>refuses = never_refuses, dialog_run = confirm_dialog\<rparr>"

definition cancelling_host :: host where
  "cancelling_host = \<lparr>refuses = never_refuses, dialog_run = cancel_dialog\<rparr>"

definition vertical_only_host :: host where
  "vertical_only_host = \<lparr>refuses = refuses_horizontal, dialog_run = confirm_dialog\<rparr>"

definition blank_image :: "int \<Rightarrow> int \<Rightarrow> image" where
  "blank_image W H = \<lparr>width = W, height = H, guides = [], undo_depth = 0, calls = []\<rparr>"

definition thirds :: config where
  "thirds = \<lparr>h_split = 3, v_split = 3, make_centre = True, draw_borders = False\<rparr>"

definition borders_only :: config where
  "borders_only = \<lparr>h_split = 1, v_split = 1, make_centre = False, draw_borders = True\<rparr>"

definition vertical_bands :: "int \<Rightarrow> config" where
  "vertical_bands n = \<lparr>h_split = 1, v_split = n, make_centre = False, draw_borders = False\<rparr>"

text \<open>The images that the examples leave behind.\<close>

definition thirds_guides :: "guide list" where
  "thirds_guides =
     [VGuide 300, VGuide 600, HGuide 200, HGuide 400, VGuide 450, HGuide 300]"

definition after_thirds :: image where
  "after_thirds =
     \<lparr>width = 900, height = 600, guides = thirds_guides, undo_depth = 0,
      calls = UndoGroupStart # map Added thirds_guides @ [UndoGroupEnd]\<rparr>"

definition after_thirds_twice :: image where
  "after_thirds_twice =
     \<lparr>width = 900, height = 600, guides = thirds_guides @ thirds_guides, undo_depth = 0,
      calls = (UndoGroupStart # map Added thirds_guides @ [UndoGroupEnd])
        @ (UndoGroupStart # map Added thirds_guides @ [UndoGroupEnd])\<rparr>"

definition after_borders :: image where
  "after_borders =
     \<lparr>width = 800, height = 400,
      guides = [VGuide 0, HGuide 0, VGuide 800, HGuide 400], undo_depth = 0,
      calls = [UndoGroupStart, Added (VGuide 0), Added (HGuide 0), Added (VGuide 800),
        Added (HGuide 400), UndoGroupEnd]\<rparr>"

definition after_refusal :: image where
  "after_refusal =
     \<lparr>width = 900, height = 600, guides = [VGuide 300, VGuide 600], undo_depth = 0,
      calls = [UndoGroupStart, Added (VGuide 300), Added (VGuide 600),
        Rejected (HGuide 200), UndoGroupEnd]\<rparr>"

section \<open>Rounding to the nearest integer\<close>

lemma rhe_err:
  assumes "0 \<le> n" "0 < d"
  shows "\<bar>real_of_int (round_half_even n d) - real_of_int n / real_of_int d\<bar> \<le> 1 / 2"
proof -
  define q where "q = n div d"
  define r where "r = n mod d"
  have n: "n = d * q + r" by (simp add: q_def r_def)
  have r: "0 \<le> r" "r < d" using assms by (simp_all add: r_def)
  have frac: "real_of_int n / real_of_int d = real_of_int q + real_of_int r / real_of_int d"
    using assms by (simp add: n field_simps)
  have rd: "0 \<le> real_of_int r / real_of_int d" "real_of_int r / real_of_int d < 1"
    using r assms by simp_all
  consider "2 * r < d" | "d < 2 * r" | "2 * r = d" by linarith
  then show ?thesis
  proof cases
    case 1
    then have "round_half_even n d = q" by (simp add: round_half_even_def q_def r_def Let_def)
    moreover have "real_of_int r / real_of_int d \<le> 1 / 2"
      using 1 assms by (simp add: field_simps)
    ultimately show ?thesis using rd frac by simp
  next
    case 2
    then have "round_half_even n d = q + 1" by (simp add: round_half_even_def q_def r_def Let_def)
    moreover have "1 / 2 \<le> real_of_int r / real_of_int d"
      using 2 assms by (simp add: field_simps)
    ultimately show ?thesis using rd frac by simp
  next
    case 3
    then have "round_half_even n d = q \<or> round_half_even n d = q + 1"
      by (simp add: round_half_even_def q_def r_def Let_def)
    moreover have "real_of_int r / real_of_int d = 1 / 2"
      using 3 assms by (simp add: field_simps) 
    ultimately show ?thesis using frac by auto
  qed
qed

lemma rhe_exact: "0 < d \<Longrightarrow> d dvd n \<Longrightarrow> round_half_even n d = n div d"
  by (simp add: round_half_even_def Let_def)

lemma pow2_ratio: "(2::real) ^ nat x / 2 ^ nat (- x) = 2 powi x"
  by (cases "0 \<le> x") (simp_all add: power_int_def field_simps)

section \<open>The binary exponent of a quotient\<close>

lemma bitlen_powi:
  assumes "0 < a"
  shows "2 powi (bitlen a - 1) \<le> real_of_int a" "real_of_int a < 2 powi (bitlen a)"
proof -
  have pos: "1 \<le> bitlen a" using assms by (simp add: bitlen_alt_def)
  have "2 ^ nat (bitlen a - 1) \<le> a" "a < 2 ^ nat (bitlen a)"
    using bitlen_bounds[OF assms] by simp_all
  then have "real_of_int (2 ^ nat (bitlen a - 1)) \<le> real_of_int a"
    "real_of_int a < real_of_int (2 ^ nat (bitlen a))"
    by linarith+
  then show "2 powi (bitlen a - 1) \<le> real_of_int a" "real_of_int a < 2 powi (bitlen a)"
    using pos by (simp_all add: power_int_def)
qed

lemma expo_bounds:
  assumes "0 < a" "0 < b"
  defines "d \<equiv> bitlen a - bitlen b"
  defines "E \<equiv> (if b * 2 ^ nat d \<le> a * 2 ^ nat (- d) then d else d - 1)"
  shows "2 powi E \<le> real_of_int a / real_of_int b"
    and "real_of_int a / real_of_int b < 2 powi (E + 1)"
proof -
  let ?x = "real_of_int a / real_of_int b"
  have ra: "0 < real_of_int a" and rb: "0 < real_of_int b" using assms by simp_all
  have test: "(b * 2 ^ nat d \<le> a * 2 ^ nat (- d)) = (2 powi d \<le> ?x)"
  proof -
    have "(b * 2 ^ nat d \<le> a * 2 ^ nat (- d))
        = (real_of_int (b * 2 ^ nat d) \<le> real_of_int (a * 2 ^ nat (- d)))"
      by (simp only: of_int_le_iff)
    also have "\<dots> = (real_of_int b * 2 ^ nat d \<le> real_of_int a * 2 ^ nat (- d))"
      by simp
    also have "\<dots> = (2 ^ nat d / 2 ^ nat (- d) \<le> ?x)"
      using rb by (simp add: field_simps)
    finally show ?thesis by (simp only: pow2_ratio)
  qed
  have lo: "(2::real) powi (d - 1) < ?x"
  proof -
    have "(2::real) powi (d - 1) = 2 powi ((bitlen a - 1) - bitlen b)"
      by (simp add: d_def algebra_simps)
    also have "\<dots> = 2 powi (bitlen a - 1) / 2 powi (bitlen b)"
      by (rule power_int_diff) simp
    also have "\<dots> \<le> real_of_int a / 2 powi (bitlen b)"
      using bitlen_powi(1)[OF assms(1)] by (simp add: divide_right_mono)
    also have "\<dots> < ?x"
      using bitlen_powi(2)[OF assms(2)] ra rb by (simp add: divide_strict_left_mono)
    finally show ?thesis .
  qed
  have hi: "?x < 2 powi (d + 1)"
  proof -
    have "?x < 2 powi (bitlen a) / real_of_int b"
      using bitlen_powi(2)[OF assms(1)] rb by (simp add: divide_strict_right_mono)
    also have "\<dots> \<le> 2 powi (bitlen a) / 2 powi (bitlen b - 1)"
      using bitlen_powi(1)[OF assms(2)] rb by (simp add: divide_left_mono)
    also have "\<dots> = 2 powi (bitlen a - (bitlen b - 1))"
      by (rule power_int_diff[symmetric]) simp
    also have "\<dots> = 2 powi (d + 1)"
      by (simp add: d_def algebra_simps)
    finally show ?thesis .
  qed
  show "2 powi E \<le> ?x"
    using lo test by (simp add: E_def)
  show "?x < 2 powi (E + 1)"
    using hi test by (simp add: E_def not_le)
qed

section \<open>The error of one rounding\<close>

lemma pow2_less_D: "(2::real) powi m < 2 powi n \<Longrightarrow> m < n"
  using power_int_increasing[of n m "2::real"] by (cases "m < n") simp_all

lemma b64_round_unfold:
  assumes "0 < a"
    and "d = bitlen a - bitlen b"
    and "E = (if b * 2 ^ nat d \<le> a * 2 ^ nat (- d) then d else d - 1)"
    and "s = min (52 - E) 1074"
    and "q = round_half_even (a * 2 ^ nat s) (b * 2 ^ nat (- s))"
  shows "b64_round a b =
    (if 2 ^ 1024 \<le> q * 2 ^ nat (- s) then Infinity False else Finite q (- s))"
proof -
  have "\<bar>a\<bar> = a" "sgn a = 1" "a \<noteq> 0" "\<not> a < 0" using assms(1) by simp_all
  then show ?thesis
    unfolding b64_round_def Let_def assms(2-5) by (simp only: if_False mult_1)
qed

lemma b64_round_pos:
  assumes a: "0 < a" and b: "0 < b"
    and normal: "real_of_int b \<le> real_of_int a * 2 ^ 1022"
  shows "\<exists>q e. 0 < q \<and> q \<le> 2 ^ 53 \<and>
           \<bar>real_of_int q * 2 powi e - real_of_int a / real_of_int b\<bar>
             \<le> real_of_int a / real_of_int b / 2 ^ 53 \<and>
           b64_round a b = (if 2 ^ 1024 \<le> q * 2 ^ nat e then Infinity False else Finite q e)"
proof -
  let ?x = "real_of_int a / real_of_int b"
  define d where "d = bitlen a - bitlen b"
  define E where "E = (if b * 2 ^ nat d \<le> a * 2 ^ nat (- d) then d else d - 1)"
  define s where "s = 52 - E"
  define num where "num = a * 2 ^ nat s"
  define den where "den = b * 2 ^ nat (- s)"
  define q where "q = round_half_even num den"
  have ra: "0 < real_of_int a" and rb: "0 < real_of_int b" using a b by simp_all
  have x0: "0 < ?x" using ra rb by simp
  have E1: "2 powi E \<le> ?x"
    unfolding E_def d_def by (rule expo_bounds(1)[OF a b])
  have E2: "?x < 2 powi (E + 1)"
    unfolding E_def d_def by (rule expo_bounds(2)[OF a b])
  have "(2::real) powi (- 1022) \<le> ?x"
    using normal rb by (simp add: power_int_minus field_simps)
  with E2 have "(2::real) powi (- 1022) < 2 powi (E + 1)" by linarith
  then have "- 1022 < E + 1" by (rule pow2_less_D)
  then have smin: "min (52 - E) 1074 = s" by (simp add: s_def)
  have num0: "0 \<le> num" and den0: "0 < den"
    using a b by (simp_all add: num_def den_def)
  have scaled: "real_of_int num / real_of_int den = ?x * 2 powi s"
  proof -
    have "real_of_int num / real_of_int den = ?x * (2 ^ nat s / 2 ^ nat (- s))"
      by (simp add: num_def den_def)
    then show ?thesis by (simp only: pow2_ratio)
  qed
  have err: "\<bar>real_of_int q - ?x * 2 powi s\<bar> \<le> 1 / 2"
    using rhe_err[OF num0 den0] by (simp add: q_def scaled)
  have ps: "(2::real) powi E * 2 powi s = 2 ^ 52"
  proof -
    have "(2::real) powi E * 2 powi s = 2 powi (E + s)" by (simp add: power_int_add)
    also have "E + s = 52" by (simp add: s_def)
    finally show ?thesis by simp
  qed
  have ps': "(2::real) powi (E + 1) * 2 powi s = 2 ^ 53"
  proof -
    have "(2::real) powi (E + 1) * 2 powi s = 2 powi (E + 1 + s)" by (simp add: power_int_add)
    also have "E + 1 + s = 53" by (simp add: s_def)
    finally show ?thesis by simp
  qed
  have spos: "(0::real) < 2 powi s" by simp
  have lo: "2 ^ 52 \<le> ?x * 2 powi s"
    using mult_right_mono[OF E1, of "2 powi s"] ps by simp
  have hi: "?x * 2 powi s < 2 ^ 53"
    using mult_strict_right_mono[OF E2 spos] ps' by simp
  have qlo: "2 ^ 52 \<le> q"
  proof -
    have "2 ^ 52 - 1 / 2 \<le> real_of_int q" using err lo by linarith
    then have "real_of_int (2 ^ 52 - 1) < real_of_int q" by simp
    then show ?thesis by linarith
  qed
  have qhi: "q \<le> 2 ^ 53"
  proof -
    have "real_of_int q < 2 ^ 53 + 1 / 2" using err hi by linarith
    then have "real_of_int q < real_of_int (2 ^ 53 + 1)" by simp
    then show ?thesis by linarith
  qed
  have qpos: "0 < q" using qlo by simp
  have inv: "(2::real) powi s * 2 powi (- s) = 1"
    by (simp add: power_int_minus)
  have bound: "\<bar>real_of_int q * 2 powi (- s) - ?x\<bar> \<le> ?x / 2 ^ 53"
  proof -
    have "real_of_int q * 2 powi (- s) - ?x = (real_of_int q - ?x * 2 powi s) * 2 powi (- s)"
      using inv by (simp add: algebra_simps)
    then have "\<bar>real_of_int q * 2 powi (- s) - ?x\<bar>
        = \<bar>real_of_int q - ?x * 2 powi s\<bar> * 2 powi (- s)"
      by (simp add: abs_mult)
    also have "\<dots> \<le> 1 / 2 * 2 powi (- s)"
      using err by (simp add: mult_right_mono)
    also have "\<dots> = 2 powi E / 2 ^ 53"
    proof -
      have "(2::real) powi E = 2 powi E * (2 powi s * 2 powi (- s))"
        by (simp only: inv mult_1_right)
      also have "\<dots> = (2 powi E * 2 powi s) * 2 powi (- s)"
        by (simp only: mult.assoc)
      also have "\<dots> = 2 ^ 52 * 2 powi (- s)"
        by (simp only: ps)
      finally have "(2::real) powi E = 2 ^ 52 * 2 powi (- s)" .
      then show ?thesis by simp
    qed
    also have "\<dots> \<le> ?x / 2 ^ 53"
      using E1 by (simp add: divide_right_mono)
    finally show ?thesis .
  qed
  have res: "b64_round a b = (if 2 ^ 1024 \<le> q * 2 ^ nat (- s) then Infinity False else Finite q (- s))"
    by (rule b64_round_unfold[OF a d_def E_def smin[symmetric]]) (simp only: q_def num_def den_def)
  show ?thesis
    using qpos qhi bound res by blast
qed

section \<open>Truncation, overflow and exact results\<close>

lemma py_int_floor:
  assumes "0 \<le> q"
  shows "py_int (Finite q e) = Inr \<lfloor>real_of_int q * 2 powi e\<rfloor>"
proof (cases "q = 0")
  case True
  then show ?thesis by simp
next
  case False
  with assms have q: "0 < q" by simp
  have "\<lfloor>real_of_int q * 2 powi e\<rfloor> = \<lfloor>real_of_int (q * 2 ^ nat e) / real_of_int (2 ^ nat (- e))\<rfloor>"
    by (simp add: pow2_ratio[symmetric])
  also have "\<dots> = (q * 2 ^ nat e) div 2 ^ nat (- e)"
    by (rule floor_divide_of_int_eq)
  finally show ?thesis using q by simp
qed

lemma of_int_scale:
  "0 \<le> e \<Longrightarrow> real_of_int (q * 2 ^ nat e) = real_of_int q * 2 powi e"
  by (simp add: power_int_def)

lemma overflow_value:
  assumes "0 < q" "2 ^ 1024 \<le> q * 2 ^ nat e" "q \<le> 2 ^ 53"
  shows "2 ^ 1024 \<le> real_of_int q * 2 powi e"
proof (cases "0 \<le> e")
  case True
  have "2 ^ 1024 \<le> real_of_int (q * 2 ^ nat e)"
    using assms(2) by (simp only: numeral_power_le_of_int_cancel_iff)
  then show ?thesis by (simp only: of_int_scale[OF True])
next
  case False
  then have "q * 2 ^ nat e = q" by simp
  moreover have "(2::int) ^ 53 < 2 ^ 1024"
    by (rule power_strict_increasing) simp_all
  ultimately have False using assms(2,3) by linarith
  then show ?thesis ..
qed

lemma b64_round_exact:
  assumes a: "0 < a" and b: "0 < b" and dv: "b dvd a" and small: "a div b < 2 ^ 53"
  shows "\<exists>s. b64_round a b = Finite (a div b * 2 ^ s) (- int s)"
proof -
  define w where "w = a div b"
  have aw: "a = w * b" using dv by (simp add: w_def)
  have "0 < w * b" using a aw by simp
  then have w1: "1 \<le> w" using b by (simp add: zero_less_mult_iff)
  define d where "d = bitlen a - bitlen b"
  define E where "E = (if b * 2 ^ nat d \<le> a * 2 ^ nat (- d) then d else d - 1)"
  have x: "real_of_int a / real_of_int b = real_of_int w"
    using b by (simp add: aw)
  have E1: "2 powi E \<le> real_of_int w"
    unfolding E_def d_def x[symmetric] by (rule expo_bounds(1)[OF a b])
  have E2: "real_of_int w < 2 powi (E + 1)"
    unfolding E_def d_def x[symmetric] by (rule expo_bounds(2)[OF a b])
  have "(2::real) powi 0 < 2 powi (E + 1)" using E2 w1 by simp
  then have Elo: "0 \<le> E" using pow2_less_D by fastforce
  have "real_of_int w < real_of_int (2 ^ 53)" using small unfolding w_def by linarith
  then have "(2::real) powi E < 2 powi 53" using E1 by simp
  then have Ehi: "E < 53" by (rule pow2_less_D)
  define s where "s = nat (52 - E)"
  have smin: "int s = min (52 - E) 1074" using Elo Ehi by (simp add: s_def)
  have neg: "nat (- int s) = 0" by simp
  define q where "q = round_half_even (a * 2 ^ nat (int s)) (b * 2 ^ nat (- int s))"
  have "b dvd a * 2 ^ s" using dv by simp
  then have q: "q = w * 2 ^ s"
    using b by (simp add: q_def rhe_exact aw)
  have "s \<le> 52" using Elo by (simp add: s_def)
  then have "(2::int) ^ s \<le> 2 ^ 52" by (intro power_increasing) simp_all
  then have "w * 2 ^ s \<le> 2 ^ 53 * 2 ^ 52"
    using small w1 unfolding w_def[symmetric] by (intro mult_mono) simp_all
  moreover have "(2::int) ^ 53 * 2 ^ 52 < 2 ^ 1024"
    unfolding power_add[symmetric] by (rule power_strict_increasing) simp_all
  ultimately have "w * 2 ^ s < 2 ^ 1024" by (rule le_less_trans)
  then have nov: "\<not> 2 ^ 1024 \<le> q * 2 ^ nat (- int s)"
    unfolding q neg by (simp only: power_0 mult_1_right not_le)
  have "b64_round a b =
      (if 2 ^ 1024 \<le> q * 2 ^ nat (- int s) then Infinity False else Finite q (- int s))"
    by (rule b64_round_unfold[OF a d_def E_def smin q_def])
  then show ?thesis using nov q by (auto simp: w_def)
qed

lemma py_int_exact: "0 \<le> w \<Longrightarrow> py_int (Finite (w * 2 ^ s) (- int s)) = Inr w"
  by (cases "w = 0") (simp_all add: sgn_mult)

section \<open>Division, conversion and multiplication\<close>

lemma py_truediv_b64:
  "0 < b \<Longrightarrow> py_truediv a b =
     (case b64_round a b of Finite m e \<Rightarrow> Inr (Finite m e) | _ \<Rightarrow> Inl OverflowError)"
  by (simp add: py_truediv_def)

lemma py_truediv_pos:
  assumes a: "0 < a" and b: "0 < b"
    and normal: "real_of_int b \<le> real_of_int a * 2 ^ 1022"
  shows "\<exists>q e. 0 < q \<and> q \<le> 2 ^ 53 \<and>
           \<bar>real_of_int q * 2 powi e - real_of_int a / real_of_int b\<bar>
             \<le> real_of_int a / real_of_int b / 2 ^ 53 \<and>
           (py_truediv a b = Inr (Finite q e) \<or>
            py_truediv a b = Inl OverflowError \<and> 2 ^ 1024 \<le> real_of_int q * 2 powi e)"
proof -
  obtain q e where q: "0 < q" "q \<le> 2 ^ 53"
    and err: "\<bar>real_of_int q * 2 powi e - real_of_int a / real_of_int b\<bar>
             \<le> real_of_int a / real_of_int b / 2 ^ 53"
    and res: "b64_round a b = (if 2 ^ 1024 \<le> q * 2 ^ nat e then Infinity False else Finite q e)"
    using b64_round_pos[OF a b normal] by blast
  show ?thesis
  proof (cases "2 ^ 1024 \<le> q * 2 ^ nat e")
    case True
    have "b64_round a b = Infinity False" using res True by (simp only: if_True)
    then have "py_truediv a b = Inl OverflowError"
      by (simp add: py_truediv_b64[OF b])
    moreover have "2 ^ 1024 \<le> real_of_int q * 2 powi e"
      by (rule overflow_value[OF q(1) True q(2)])
    ultimately show ?thesis using q err by blast
  next
    case False
    have "b64_round a b = Finite q e" using res False by (simp only: if_False)
    then have "py_truediv a b = Inr (Finite q e)"
      by (simp add: py_truediv_b64[OF b])
    then show ?thesis using q err by blast
  qed
qed

lemma py_truediv_exact:
  assumes "0 < a" "0 < b" "b dvd a" "a div b < 2 ^ 53"
  shows "\<exists>s. py_truediv a b = Inr (Finite (a div b * 2 ^ s) (- int s))"
proof -
  obtain s where "b64_round a b = Finite (a div b * 2 ^ s) (- int s)"
    using b64_round_exact[OF assms] by blast
  then have "py_truediv a b = Inr (Finite (a div b * 2 ^ s) (- int s))"
    by (simp add: py_truediv_b64[OF assms(2)])
  then show ?thesis ..
qed

lemma py_float_of_int_exact:
  assumes "0 < k" "k < 2 ^ 53"
  shows "\<exists>s. py_float_of_int k = Inr (Finite (k * 2 ^ s) (- int s))"
proof -
  have "\<exists>s. b64_round k 1 = Finite (k div 1 * 2 ^ s) (- int s)"
    using assms by (intro b64_round_exact) simp_all
  then obtain s where "b64_round k 1 = Finite (k * 2 ^ s) (- int s)" by auto
  then have "py_float_of_int k = Inr (Finite (k * 2 ^ s) (- int s))"
    unfolding py_float_of_int_def by simp
  then show ?thesis ..
qed

lemma pow2_split: "(2::real) ^ s * 2 powi (e - int s) = 2 powi e"
proof -
  have "(2::real) powi (int s + (e - int s)) = 2 powi (int s) * 2 powi (e - int s)"
    by (rule power_int_add) simp
  then show ?thesis by simp
qed

lemma py_mul_int_pos:
  assumes q: "0 < q" and k: "0 < k" "k < 2 ^ 53"
    and normal: "1 \<le> real_of_int q * 2 powi e * real_of_int k * 2 ^ 1022"
  shows "\<exists>q' e'. 0 < q' \<and> q' \<le> 2 ^ 53 \<and>
           \<bar>real_of_int q' * 2 powi e' - real_of_int q * 2 powi e * real_of_int k\<bar>
             \<le> real_of_int q * 2 powi e * real_of_int k / 2 ^ 53 \<and>
           (py_mul_int (Finite q e) k = Inr (Finite q' e') \<or>
            py_mul_int (Finite q e) k = Inr (Infinity False) \<and>
              2 ^ 1024 \<le> real_of_int q' * 2 powi e')"
proof -
  obtain s where fk: "py_float_of_int k = Inr (Finite (k * 2 ^ s) (- int s))"
    using py_float_of_int_exact[OF k] by blast
  define z where "z = e + - int s"
  define A where "A = q * (k * 2 ^ s) * 2 ^ nat z"
  define B where "B = (2::int) ^ nat (- z)"
  have mul: "py_mul_int (Finite q e) k = Inr (b64_round A B)"
    unfolding py_mul_int_def fk by (simp add: A_def B_def z_def)
  have A: "0 < A" and B: "0 < B" using q k by (simp_all add: A_def B_def)
  have val: "real_of_int A / real_of_int B = real_of_int q * 2 powi e * real_of_int k"
  proof -
    have "real_of_int A / real_of_int B
        = real_of_int q * real_of_int k * (2 ^ s * (2 ^ nat z / 2 ^ nat (- z)))"
      by (simp add: A_def B_def)
    also have "2 ^ s * ((2::real) ^ nat z / 2 ^ nat (- z)) = 2 powi e"
      unfolding pow2_ratio z_def using pow2_split[of s e] by simp
    finally show ?thesis by (simp add: mult_ac)
  qed
  have "real_of_int B \<le> real_of_int A * 2 ^ 1022"
  proof -
    have "1 \<le> real_of_int A / real_of_int B * 2 ^ 1022"
      using normal by (simp only: val)
    then show ?thesis using B by (simp add: field_simps)
  qed
  then obtain q' e' where q': "0 < q'" "q' \<le> 2 ^ 53"
    and err: "\<bar>real_of_int q' * 2 powi e' - real_of_int A / real_of_int B\<bar>
             \<le> real_of_int A / real_of_int B / 2 ^ 53"
    and res: "b64_round A B = (if 2 ^ 1024 \<le> q' * 2 ^ nat e' then Infinity False else Finite q' e')"
    using b64_round_pos[OF A B] by blast
  show ?thesis
  proof (cases "2 ^ 1024 \<le> q' * 2 ^ nat e'")
    case True
    have "b64_round A B = Infinity False" using res True by (simp only: if_True)
    then have "py_mul_int (Finite q e) k = Inr (Infinity False)"
      unfolding mul by simp
    moreover have "2 ^ 1024 \<le> real_of_int q' * 2 powi e'"
      by (rule overflow_value[OF q'(1) True q'(2)])
    ultimately show ?thesis using q' err unfolding val by blast
  next
    case False
    have "b64_round A B = Finite q' e'" using res False by (simp only: if_False)
    then have "py_mul_int (Finite q e) k = Inr (Finite q' e')"
      unfolding mul by simp
    then show ?thesis using q' err unfolding val by blast
  qed
qed

lemma py_mul_int_exact:
  assumes w: "0 < w" and k: "0 < k" "k < 2 ^ 53" and small: "w * k < 2 ^ 53"
  shows "\<exists>s'. py_mul_int (Finite (w * 2 ^ s) (- int s)) k
           = Inr (Finite (w * k * 2 ^ s') (- int s'))"
proof -
  obtain t where fk: "py_float_of_int k = Inr (Finite (k * 2 ^ t) (- int t))"
    using py_float_of_int_exact[OF k] by blast
  define A where "A = w * k * 2 ^ (s + t)"
  define B where "B = (2::int) ^ (s + t)"
  have z: "nat (- int s + - int t) = 0" "nat (- (- int s + - int t)) = s + t" by simp_all
  have "py_mul_int (Finite (w * 2 ^ s) (- int s)) k
      = Inr (b64_round (w * 2 ^ s * (k * 2 ^ t) * 2 ^ nat (- int s + - int t))
                (2 ^ nat (- (- int s + - int t))))"
    unfolding py_mul_int_def fk by simp
  also have "w * 2 ^ s * (k * 2 ^ t) * 2 ^ nat (- int s + - int t) = A"
    unfolding z A_def by (simp add: power_add)
  also have "(2::int) ^ nat (- (- int s + - int t)) = B"
    unfolding z B_def ..
  finally have mul: "py_mul_int (Finite (w * 2 ^ s) (- int s)) k = Inr (b64_round A B)" .
  have A: "0 < A" and B: "0 < B" using w k by (simp_all add: A_def B_def)
  have dv: "B dvd A" by (simp add: A_def B_def)
  have quot: "A div B = w * k" by (simp add: A_def B_def)
  obtain s' where "b64_round A B = Finite (A div B * 2 ^ s') (- int s')"
    using b64_round_exact[OF A B dv] small unfolding quot by blast
  then show ?thesis unfolding mul quot by blast
qed

section \<open>The computed guide position and the exact quotient\<close>

lemma floor_near_quotient:
  fixes y :: real and m v :: int
  assumes v: "0 < v" and near: "\<bar>y - real_of_int m / real_of_int v\<bar> < 1 / real_of_int v"
  shows "m div v - 1 \<le> \<lfloor>y\<rfloor>" and "\<lfloor>y\<rfloor> \<le> m div v"
    and "\<not> v dvd m \<Longrightarrow> \<lfloor>y\<rfloor> = m div v"
proof -
  define n where "n = m div v"
  define r where "r = m mod v"
  have m: "m = v * n + r" by (simp add: n_def r_def)
  have r: "0 \<le> r" "r < v" using v by (simp_all add: r_def)
  have rv: "0 < real_of_int v" using v by simp
  have t: "real_of_int m / real_of_int v = real_of_int n + real_of_int r / real_of_int v"
    using v by (simp add: m field_simps)
  have f0: "0 \<le> real_of_int r / real_of_int v" using r rv by simp
  have f1: "real_of_int r / real_of_int v \<le> 1 - 1 / real_of_int v"
  proof -
    have "real_of_int r \<le> real_of_int v - 1" using r by linarith
    then have "real_of_int r / real_of_int v \<le> (real_of_int v - 1) / real_of_int v"
      using rv by (simp add: divide_right_mono)
    then show ?thesis using rv by (simp add: field_simps)
  qed
  have iv: "1 / real_of_int v \<le> 1"
    using v by simp
  have lo: "real_of_int n - 1 \<le> y" using near t f0 iv by linarith
  have hi: "y < real_of_int n + 1" using near t f1 by linarith
  have "real_of_int (n - 1) \<le> y" using lo by simp
  then show "m div v - 1 \<le> \<lfloor>y\<rfloor>" unfolding n_def[symmetric] by (simp only: le_floor_iff)
  have "y < real_of_int (n + 1)" using hi by simp
  then have "\<lfloor>y\<rfloor> < n + 1" by (simp only: floor_less_iff)
  then show "\<lfloor>y\<rfloor> \<le> m div v" unfolding n_def[symmetric] by simp
  assume "\<not> v dvd m"
  then have "r \<noteq> 0" unfolding r_def by (simp add: dvd_eq_mod_eq_0)
  with r have "1 \<le> real_of_int r" by linarith
  then have "1 / real_of_int v \<le> real_of_int r / real_of_int v"
    using rv by (simp add: divide_right_mono)
  then have "real_of_int n \<le> y" using near t by linarith
  then have "n \<le> \<lfloor>y\<rfloor>" by (simp only: le_floor_iff)
  with \<open>\<lfloor>y\<rfloor> < n + 1\<close> show "\<lfloor>y\<rfloor> = m div v" unfolding n_def[symmetric] by simp
qed

lemma guide_pos_approx:
  assumes W: "0 < W" and v: "0 < v" "v \<le> 100" and k: "0 < k" "k < 2 ^ 53"
  defines "t \<equiv> real_of_int W * real_of_int k / real_of_int v"
  shows "\<exists>y. 0 < y \<and> \<bar>y - t\<bar> \<le> t * 3 / 2 ^ 53 \<and>
           (guide_pos W v (k - 1) = Inr \<lfloor>y\<rfloor> \<or>
            guide_pos W v (k - 1) = Inl OverflowError \<and> 2 ^ 1023 \<le> t)"
proof -
  define u :: real where "u = 1 / 2 ^ 53"
  define r where "r = real_of_int W / real_of_int v"
  have u: "0 < u" "u \<le> 1" by (simp_all add: u_def)
  have rW: "1 \<le> real_of_int W" and rv: "0 < real_of_int v" "real_of_int v \<le> 100"
    and rk: "1 \<le> real_of_int k"
    using W v k by simp_all
  have r0: "0 < r" using rW rv by (simp add: r_def)
  have rlo: "1 / 100 \<le> r"
  proof -
    have "1 / 100 \<le> 1 / real_of_int v" using rv by (simp add: field_simps)
    also have "\<dots> \<le> r" unfolding r_def using rW rv by (simp add: divide_right_mono)
    finally show ?thesis .
  qed
  have t: "t = r * real_of_int k" by (simp add: t_def r_def)
  have t0: "0 < t" using r0 rk by (simp add: t)
  have rt: "r \<le> t" using r0 rk by (simp add: t)
  have tuu: "t * u * u \<le> t * u" using t0 u by simp
  have "real_of_int v \<le> real_of_int W * 2 ^ 1022"
  proof -
    have "real_of_int v \<le> 1 * 2 ^ 1022" using rv by simp
    also have "\<dots> \<le> real_of_int W * 2 ^ 1022" using rW by (intro mult_right_mono) simp_all
    finally show ?thesis .
  qed
  then obtain q e where q: "0 < q" "q \<le> 2 ^ 53"
    and e1: "\<bar>real_of_int q * 2 powi e - r\<bar> \<le> r * u"
    and d: "py_truediv W v = Inr (Finite q e) \<or>
            py_truediv W v = Inl OverflowError \<and> 2 ^ 1024 \<le> real_of_int q * 2 powi e"
    using py_truediv_pos[OF W v(1)] unfolding r_def u_def by auto
  define x where "x = real_of_int q * 2 powi e"
  have ru: "r * u \<le> r" using r0 u by simp
  have xr: "x \<le> r + r * u" "r - r * u \<le> x" using e1 unfolding x_def by linarith+
  from d show ?thesis
  proof
    assume ov: "py_truediv W v = Inl OverflowError \<and> 2 ^ 1024 \<le> real_of_int q * 2 powi e"
    then have "guide_pos W v (k - 1) = Inl OverflowError" by (simp add: guide_pos_def)
    moreover have "2 ^ 1023 \<le> t"
    proof -
      have "(2::real) ^ 1024 \<le> 2 * r" using ov xr ru unfolding x_def by linarith
      then have "(2::real) ^ 1023 \<le> r" by simp
      then show ?thesis using rt by linarith
    qed
    moreover have "\<bar>t - t\<bar> \<le> t * 3 / 2 ^ 53" using t0 by simp
    ultimately show ?thesis using t0 by blast
  next
    assume fin: "py_truediv W v = Inr (Finite q e)"
    have a0: "0 \<le> x * real_of_int k" and xk: "\<bar>x * real_of_int k - t\<bar> \<le> t * u"
    proof -
      have "0 \<le> x" using xr ru by linarith
      then show "0 \<le> x * real_of_int k" using rk by simp
      have "\<bar>x * real_of_int k - t\<bar> = \<bar>x - r\<bar> * real_of_int k"
        using rk by (simp add: t abs_mult left_diff_distrib[symmetric])
      also have "\<dots> \<le> r * u * real_of_int k"
        using e1 rk unfolding x_def by (intro mult_right_mono) simp_all
      finally show "\<bar>x * real_of_int k - t\<bar> \<le> t * u" by (simp add: t mult_ac)
    qed
    have "1 \<le> x * real_of_int k * 2 ^ 1022"
    proof -
      have "r * (1 - u) \<le> x" using xr by (simp add: algebra_simps)
      moreover have "1 / 2 \<le> 1 - u" by (simp add: u_def)
      then have "r * (1 / 2) \<le> r * (1 - u)" using r0 by (intro mult_left_mono) simp_all
      ultimately have "1 / 200 \<le> x" using rlo by linarith
      then have "1 / 200 * 1 \<le> x * real_of_int k" using rk by (intro mult_mono) simp_all
      then have "1 / 200 * 2 ^ 1022 \<le> x * real_of_int k * 2 ^ 1022"
        by (intro mult_right_mono) simp_all
      moreover have "(1::real) \<le> 1 / 200 * 2 ^ 1022" by simp
      ultimately show ?thesis by linarith
    qed
    then obtain q' e' where q': "0 < q'" "q' \<le> 2 ^ 53"
      and e2: "\<bar>real_of_int q' * 2 powi e' - x * real_of_int k\<bar> \<le> x * real_of_int k * u"
      and m: "py_mul_int (Finite q e) k = Inr (Finite q' e') \<or>
              py_mul_int (Finite q e) k = Inr (Infinity False) \<and>
                2 ^ 1024 \<le> real_of_int q' * 2 powi e'"
      using py_mul_int_pos[OF q(1) k, of e] unfolding x_def u_def by auto
    define y where "y = real_of_int q' * 2 powi e'"
    have au: "x * real_of_int k * u \<le> t * u + t * u * u"
    proof -
      have "x * real_of_int k \<le> t + t * u" using xk by linarith
      then have "x * real_of_int k * u \<le> (t + t * u) * u"
        using u by (intro mult_right_mono) simp_all
      then show ?thesis by (simp add: algebra_simps)
    qed
    have ypos: "0 < y" using q' by (simp add: y_def)
    have yt: "\<bar>y - t\<bar> \<le> t * 3 / 2 ^ 53"
    proof -
      have "\<bar>y - t\<bar> \<le> t * u * 3" using e2 xk au tuu unfolding y_def by linarith
      then show ?thesis by (simp add: u_def)
    qed
    from m show ?thesis
    proof
      assume "py_mul_int (Finite q e) k = Inr (Finite q' e')"
      moreover have "py_int (Finite q' e') = Inr \<lfloor>y\<rfloor>"
        unfolding y_def using q'(1) by (intro py_int_floor) simp
      ultimately have "guide_pos W v (k - 1) = Inr \<lfloor>y\<rfloor>"
        using fin by (simp add: guide_pos_def del: py_int.simps)
      then show ?thesis using ypos yt by blast
    next
      assume inf: "py_mul_int (Finite q e) k = Inr (Infinity False) \<and>
                2 ^ 1024 \<le> real_of_int q' * 2 powi e'"
      then have "guide_pos W v (k - 1) = Inl OverflowError"
        using fin by (simp add: guide_pos_def)
      moreover have "2 ^ 1023 \<le> t"
      proof -
        have "t * u * 3 \<le> t" using t0 by (simp add: u_def)
        moreover have "\<bar>y - t\<bar> \<le> t * u * 3" using yt by (simp add: u_def)
        ultimately have "(2::real) ^ 1024 \<le> 2 * t" using inf unfolding y_def by linarith
        then show ?thesis by simp
      qed
      ultimately show ?thesis using ypos yt by blast
    qed
  qed
qed

lemma guide_pos_range:
  assumes res: "guide_pos W v i = Inr p"
    and W: "0 < W" and i: "0 \<le> i" "i + 2 \<le> v" and v: "v \<le> 100"
  shows "0 \<le> p \<and> p \<le> W"
proof -
  define k where "k = i + 1"
  define t where "t = real_of_int W * real_of_int k / real_of_int v"
  have k: "0 < k" "k < 2 ^ 53" "k + 1 \<le> v" using i v by (simp_all add: k_def)
  have v0: "0 < v" using i by simp
  obtain y where y: "0 < y" "\<bar>y - t\<bar> \<le> t * 3 / 2 ^ 53"
    and g: "guide_pos W v (k - 1) = Inr \<lfloor>y\<rfloor> \<or>
            guide_pos W v (k - 1) = Inl OverflowError \<and> 2 ^ 1023 \<le> t"
    using guide_pos_approx[OF W v0 v k(1,2)] unfolding t_def by blast
  have p: "p = \<lfloor>y\<rfloor>" using g res by (auto simp: k_def)
  have rW: "0 < real_of_int W" and rv: "0 < real_of_int v" "real_of_int v \<le> 100"
    using W v0 v by simp_all
  have "real_of_int k \<le> real_of_int v - 1" using k by linarith
  then have "real_of_int W * real_of_int k \<le> real_of_int W * (real_of_int v - 1)"
    using rW by (intro mult_left_mono) simp_all
  then have "t \<le> real_of_int W * (real_of_int v - 1) / real_of_int v"
    unfolding t_def using rv by (simp add: divide_right_mono)
  also have "\<dots> = real_of_int W - real_of_int W / real_of_int v"
    using rv by (simp add: field_simps)
  also have "\<dots> \<le> real_of_int W - real_of_int W / 100"
  proof -
    have "real_of_int W / 100 \<le> real_of_int W / real_of_int v"
      using rW rv by (intro divide_left_mono) simp_all
    then show ?thesis by linarith
  qed
  finally have t1: "t \<le> real_of_int W - real_of_int W / 100" .
  have t0: "0 \<le> t" unfolding t_def using rW rv k by simp
  have "t * 3 / 2 ^ 53 \<le> t / 100" using t0 by simp
  also have "\<dots> \<le> real_of_int W / 100" using t1 rW by simp
  finally have "y \<le> real_of_int W" using y(2) t1 by linarith
  then have "\<lfloor>y\<rfloor> \<le> W" by (simp add: floor_le_iff)
  moreover have "0 \<le> \<lfloor>y\<rfloor>" using y(1) by simp
  ultimately show ?thesis unfolding p by simp
qed

lemma guide_pos_floor:
  assumes W: "0 < W" "W < 2 ^ 44" and i: "0 \<le> i" "i + 2 \<le> v" and v: "v \<le> 100"
  shows "\<exists>p. guide_pos W v i = Inr p \<and> W * (i + 1) div v - 1 \<le> p \<and> p \<le> W * (i + 1) div v \<and>
           (\<not> v dvd W * (i + 1) \<longrightarrow> p = W * (i + 1) div v)"
proof -
  define k where "k = i + 1"
  define t where "t = real_of_int W * real_of_int k / real_of_int v"
  have k: "0 < k" "k < 2 ^ 53" "k + 1 \<le> v" using i v by (simp_all add: k_def)
  have v0: "0 < v" using i by simp
  obtain y where y: "0 < y" "\<bar>y - t\<bar> \<le> t * 3 / 2 ^ 53"
    and g: "guide_pos W v (k - 1) = Inr \<lfloor>y\<rfloor> \<or>
            guide_pos W v (k - 1) = Inl OverflowError \<and> 2 ^ 1023 \<le> t"
    using guide_pos_approx[OF W(1) v0 v k(1,2)] unfolding t_def by blast
  have rW: "0 < real_of_int W" "real_of_int W < 2 ^ 44"
    and rv: "0 < real_of_int v" "real_of_int v \<le> 100"
    using W v0 v by simp_all
  have "real_of_int k \<le> real_of_int v" using k by linarith
  then have "real_of_int W * real_of_int k \<le> real_of_int W * real_of_int v"
    using rW by (intro mult_left_mono) simp_all
  then have tW: "t \<le> real_of_int W"
    unfolding t_def using rv by (simp add: pos_divide_le_eq)
  then have t44: "t < 2 ^ 44" using rW by linarith
  have "(2::real) ^ 44 < 2 ^ 1023" by (rule power_strict_increasing) simp_all
  then have "\<not> 2 ^ 1023 \<le> t" using t44 by linarith
  with g have res: "guide_pos W v i = Inr \<lfloor>y\<rfloor>" by (simp add: k_def)
  have "t * 3 / 2 ^ 53 < 1 / 100" using t44 by simp
  also have "1 / 100 \<le> 1 / real_of_int v" using rv by (simp add: field_simps)
  finally have near: "\<bar>y - real_of_int (W * k) / real_of_int v\<bar> < 1 / real_of_int v"
    using y(2) by (simp add: t_def)
  show ?thesis
    using res floor_near_quotient[OF v0 near] unfolding k_def by blast
qed

lemma guide_pos_exact:
  assumes W: "0 < W" "W < 2 ^ 44" and dv: "v dvd W"
    and i: "0 \<le> i" "i + 2 \<le> v" and v: "v \<le> 100"
  shows "guide_pos W v i = Inr (W * (i + 1) div v)"
proof -
  define k where "k = i + 1"
  define w where "w = W div v"
  have v0: "0 < v" using i by simp
  have Ww: "W = w * v" using dv by (simp add: w_def)
  have k: "0 < k" "k \<le> 100" using i v by (simp_all add: k_def)
  have "0 < w * v" using W Ww by simp
  then have w0: "0 < w" using v0 by (simp add: zero_less_mult_iff)
  have "w * 1 \<le> w * v" using w0 v0 by (intro mult_left_mono) simp_all
  then have w44: "w < 2 ^ 44" using W Ww by simp
  have s1: "(2::int) ^ 44 < 2 ^ 53" by simp
  have "w * k \<le> 2 ^ 44 * 100" using w44 w0 k by (intro mult_mono) simp_all
  then have wk: "w * k < 2 ^ 53" by simp
  have k53: "k < 2 ^ 53" using k by simp
  obtain s where d: "py_truediv W v = Inr (Finite (w * 2 ^ s) (- int s))"
    using py_truediv_exact[OF W(1) v0 dv] w44 s1 unfolding w_def by fastforce
  obtain s' where m: "py_mul_int (Finite (w * 2 ^ s) (- int s)) k
           = Inr (Finite (w * k * 2 ^ s') (- int s'))"
    using py_mul_int_exact[OF w0 k(1) k53 wk] by blast
  have "py_int (Finite (w * k * 2 ^ s') (- int s')) = Inr (w * k)"
    using w0 k by (intro py_int_exact) simp
  then have "guide_pos W v i = Inr (w * k)"
    using d m by (simp add: guide_pos_def k_def del: py_int.simps)
  moreover have "W * (i + 1) div v = w * k"
    using v0 by (simp add: Ww k_def mult.assoc mult.left_commute)
  ultimately show ?thesis by simp
qed

section \<open>The centre position\<close>

lemma centre_pos_approx:
  assumes W: "0 < W"
  shows "\<exists>y. 0 < y \<and> \<bar>y - real_of_int W / 2\<bar> \<le> real_of_int W / 2 / 2 ^ 53 \<and>
           (centre_pos W = Inr \<lfloor>y\<rfloor> \<or>
            centre_pos W = Inl OverflowError \<and> 2 ^ 1024 \<le> y)"
proof -
  have rW: "1 \<le> real_of_int W" using W by simp
  have "real_of_int 2 \<le> 1 * 2 ^ 1022" by simp
  also have "\<dots> \<le> real_of_int W * 2 ^ 1022" using rW by (intro mult_right_mono) simp_all
  finally obtain q e where q: "0 < q" "q \<le> 2 ^ 53"
    and e1: "\<bar>real_of_int q * 2 powi e - real_of_int W / 2\<bar> \<le> real_of_int W / 2 / 2 ^ 53"
    and d: "py_truediv W 2 = Inr (Finite q e) \<or>
            py_truediv W 2 = Inl OverflowError \<and> 2 ^ 1024 \<le> real_of_int q * 2 powi e"
    using py_truediv_pos[OF W, of 2] by auto
  define y where "y = real_of_int q * 2 powi e"
  have ypos: "0 < y" using q by (simp add: y_def)
  have "py_int (Finite q e) = Inr \<lfloor>y\<rfloor>"
    unfolding y_def using q(1) by (intro py_int_floor) simp
  then have "centre_pos W = Inr \<lfloor>y\<rfloor> \<or> centre_pos W = Inl OverflowError \<and> 2 ^ 1024 \<le> y"
    using d unfolding y_def by (auto simp add: centre_pos_def simp del: py_int.simps)
  then show ?thesis using ypos e1 unfolding y_def by blast
qed

lemma centre_pos_range:
  assumes res: "centre_pos W = Inr p" and W: "0 < W"
  shows "0 \<le> p \<and> p \<le> W"
proof -
  obtain y where y: "0 < y" "\<bar>y - real_of_int W / 2\<bar> \<le> real_of_int W / 2 / 2 ^ 53"
    and c: "centre_pos W = Inr \<lfloor>y\<rfloor> \<or> centre_pos W = Inl OverflowError \<and> 2 ^ 1024 \<le> y"
    using centre_pos_approx[OF W] by blast
  have p: "p = \<lfloor>y\<rfloor>" using c res by auto
  have rW: "0 < real_of_int W" using W by simp
  have "real_of_int W / 2 / 2 ^ 53 \<le> real_of_int W / 2" using rW by simp
  then have "y \<le> real_of_int W" using y(2) by linarith
  then have "\<lfloor>y\<rfloor> \<le> W" by (simp add: floor_le_iff)
  moreover have "0 \<le> \<lfloor>y\<rfloor>" using y(1) by simp
  ultimately show ?thesis unfolding p by simp
qed

lemma centre_pos_exact:
  assumes W: "0 < W" "W < 2 ^ 53"
  shows "centre_pos W = Inr (W div 2)"
proof (cases "2 dvd W")
  case True
  have "W div 2 < 2 ^ 53" using W by simp
  then obtain s where d: "py_truediv W 2 = Inr (Finite (W div 2 * 2 ^ s) (- int s))"
    using py_truediv_exact[OF W(1) _ True] by auto
  have "py_int (Finite (W div 2 * 2 ^ s) (- int s)) = Inr (W div 2)"
    using W by (intro py_int_exact) simp
  then show ?thesis using d by (simp add: centre_pos_def del: py_int.simps)
next
  case False
  obtain y where y: "0 < y" "\<bar>y - real_of_int W / 2\<bar> \<le> real_of_int W / 2 / 2 ^ 53"
    and c: "centre_pos W = Inr \<lfloor>y\<rfloor> \<or> centre_pos W = Inl OverflowError \<and> 2 ^ 1024 \<le> y"
    using centre_pos_approx[OF W(1)] by blast
  have rW: "0 < real_of_int W" "real_of_int W < 2 ^ 53" using W by simp_all
  have small: "real_of_int W / 2 / 2 ^ 53 < 1 / 2" using rW by simp
  have "(1::real) \<le> 2 ^ 53" by simp
  then have "y < 2 ^ 53" using y(2) small rW by linarith
  moreover have "(2::real) ^ 53 < 2 ^ 1024" by (rule power_strict_increasing) simp_all
  ultimately have "\<not> 2 ^ 1024 \<le> y" by linarith
  with c have res: "centre_pos W = Inr \<lfloor>y\<rfloor>" by simp
  have "\<bar>y - real_of_int W / real_of_int 2\<bar> < 1 / real_of_int 2"
    using y(2) small by simp
  then have "\<lfloor>y\<rfloor> = W div 2"
    using False by (intro floor_near_quotient(3)) simp_all
  then show ?thesis using res by simp
qed

section \<open>The \<^verbatim>\<open>try\<close> block runs its plan\<close>

lemma and_then_None [simp]: "and_then (None, img) f = f img"
  by (simp add: and_then_def)

lemma and_then_Some [simp]: "and_then (Some e, img) f = (Some e, img)"
  by (simp add: and_then_def)

lemma and_then_assoc: "and_then (and_then r f) g = and_then r (\<lambda>img. and_then (f img) g)"
  by (cases r) (auto simp: and_then_def split: option.splits)

lemma and_then_return [simp]: "and_then r (\<lambda>img. (None, img)) = r"
  by (cases r) (auto simp: and_then_def split: option.splits)

lemma exec_Nil_fun: "exec hst [] = (\<lambda>img. (None, img))"
  by (rule ext) simp

lemma and_then_exec_Nil [simp]: "and_then r (exec hst []) = r"
  by (simp add: exec_Nil_fun)

lemma exec_single [simp]: "exec hst [Inr g] img = add_guide hst g img"
  by (simp add: exec_Nil_fun)

lemma exec_append: "exec hst (xs @ ys) img = and_then (exec hst xs img) (exec hst ys)"
proof (induction xs arbitrary: img)
  case Nil
  show ?case by simp
next
  case (Cons x xs)
  have ih: "exec hst (xs @ ys) = (\<lambda>img. and_then (exec hst xs img) (exec hst ys))"
    by (rule ext) (rule Cons.IH)
  show ?case
  proof (cases x)
    case (Inl e)
    then show ?thesis by simp
  next
    case (Inr g)
    then show ?thesis by (simp add: ih and_then_assoc)
  qed
qed

lemma exec_Cons: "exec hst (x # xs) img = and_then (exec hst [x] img) (exec hst xs)"
  using exec_append[of hst "[x]" xs img] by simp

lemma add_at_exec:
  "add_at (add_vguide hst) pos img = exec hst [guide_at VGuide pos] img"
  "add_at (add_hguide hst) pos img = exec hst [guide_at HGuide pos] img"
  by (cases pos; simp add: add_at_def add_vguide_def add_hguide_def)+

lemma split_loop_exec:
  assumes "\<And>p img. add p img = add_guide hst (mk p) img"
  shows "split_loop add extent split is img
       = exec hst (map (\<lambda>i. guide_at mk (guide_pos extent split i)) is) img"
proof (induction "is" arbitrary: img)
  case Nil
  show ?case by simp
next
  case (Cons i rest)
  let ?f = "\<lambda>i. guide_at mk (guide_pos extent split i)"
  have step: "add_at add (guide_pos extent split i) img = exec hst [?f i] img"
    by (cases "guide_pos extent split i") (simp_all add: add_at_def assms)
  have ih: "split_loop add extent split rest = exec hst (map ?f rest)"
    by (rule ext) (rule Cons.IH)
  have "split_loop add extent split (i # rest) img
      = and_then (exec hst [?f i] img) (exec hst (map ?f rest))"
    by (simp only: split_loop.simps step ih)
  also have "\<dots> = exec hst (?f i # map ?f rest) img"
    by (rule exec_Cons[symmetric])
  finally show ?case by (simp only: list.map)
qed

lemma add_splits_exec:
  "add_splits (add_vguide hst) extent split img = exec hst (split_plan VGuide extent split) img"
  "add_splits (add_hguide hst) extent split img = exec hst (split_plan HGuide extent split) img"
proof -
  have v: "split_loop (add_vguide hst) extent split is img
       = exec hst (map (\<lambda>i. guide_at VGuide (guide_pos extent split i)) is) img" for "is"
    by (rule split_loop_exec) (simp add: add_vguide_def)
  have h: "split_loop (add_hguide hst) extent split is img
       = exec hst (map (\<lambda>i. guide_at HGuide (guide_pos extent split i)) is) img" for "is"
    by (rule split_loop_exec) (simp add: add_hguide_def)
  show "add_splits (add_vguide hst) extent split img = exec hst (split_plan VGuide extent split) img"
    by (simp add: add_splits_def split_plan_def v)
  show "add_splits (add_hguide hst) extent split img = exec hst (split_plan HGuide extent split) img"
    by (simp add: add_splits_def split_plan_def h)
qed

lemma add_centre_exec:
  assumes "make_centre cfg"
  shows "add_centre hst W H img = exec hst (centre_plan cfg W H) img"
proof -
  have h: "add_at (add_hguide hst) (centre_pos H) = exec hst [guide_at HGuide (centre_pos H)]"
    by (rule ext) (rule add_at_exec)
  have "add_centre hst W H img
      = and_then (exec hst [guide_at VGuide (centre_pos W)] img)
          (exec hst [guide_at HGuide (centre_pos H)])"
    by (simp only: add_centre_def add_at_exec(1) h)
  also have "\<dots> = exec hst [guide_at VGuide (centre_pos W), guide_at HGuide (centre_pos H)] img"
    by (rule exec_Cons[symmetric])
  finally show ?thesis using assms by (simp add: centre_plan_def)
qed

lemma add_borders_exec:
  assumes "draw_borders cfg"
  shows "add_borders hst W H img = exec hst (map Inr (border_guides cfg W H)) img"
proof -
  have fs: "add_hguide hst y = exec hst [Inr (HGuide y)]"
    "add_vguide hst x = exec hst [Inr (VGuide x)]" for x y
    by (rule ext, simp add: add_hguide_def add_vguide_def)+
  have "exec hst ((([Inr (VGuide 0)] @ [Inr (HGuide 0)]) @ [Inr (VGuide W)]) @ [Inr (HGuide H)]) img
      = add_borders hst W H img"
    unfolding exec_append add_borders_def fs ..
  then show ?thesis using assms by (simp add: border_guides_def)
qed

lemma try_body_exec: "try_body hst cfg W H img = exec hst (plan cfg W H) img"
proof -
  have h: "add_splits (add_hguide hst) H (h_split cfg) = exec hst (split_plan HGuide H (h_split cfg))"
    by (rule ext) (rule add_splits_exec)
  have c: "(\<lambda>img. if make_centre cfg then add_centre hst W H img else (None, img))
      = exec hst (centre_plan cfg W H)"
    by (rule ext) (simp add: add_centre_exec centre_plan_def)
  have b: "(\<lambda>img. if draw_borders cfg then add_borders hst W H img else (None, img))
      = exec hst (map Inr (border_guides cfg W H))"
    by (rule ext) (simp add: add_borders_exec border_guides_def)
  have "exec hst (((split_plan VGuide W (v_split cfg) @ split_plan HGuide H (h_split cfg))
          @ centre_plan cfg W H) @ map Inr (border_guides cfg W H)) img
      = try_body hst cfg W H img"
    unfolding exec_append try_body_def add_splits_exec(1) h c b ..
  then show ?thesis by (simp add: plan_def)
qed

section \<open>What an invocation leaves behind\<close>

lemma exec_result:
  assumes "exec hst p img = (r, img')"
  shows "\<exists>gs tail. guides img' = guides img @ gs \<and> calls img' = calls img @ map Added gs @ tail \<and>
           width img' = width img \<and> height img' = height img \<and>
           undo_depth img' = undo_depth img \<and> outcome p r gs tail"
  using assms
proof (induction p arbitrary: img)
  case Nil
  then have "r = None" "img' = img" by simp_all
  then have "guides img' = guides img @ [] \<and> calls img' = calls img @ map Added [] @ [] \<and>
           width img' = width img \<and> height img' = height img \<and>
           undo_depth img' = undo_depth img \<and> outcome [] r [] []"
    by (simp add: outcome_def)
  then show ?case by blast
next
  case (Cons x p)
  show ?case
  proof (cases x)
    case (Inl e)
    with Cons.prems have "r = Some e" "img' = img" by simp_all
    then have "guides img' = guides img @ [] \<and> calls img' = calls img @ map Added [] @ [] \<and>
           width img' = width img \<and> height img' = height img \<and>
           undo_depth img' = undo_depth img \<and> outcome (x # p) r [] []"
      using Inl by (simp add: outcome_def)
    then show ?thesis by blast
  next
    case (Inr g)
    show ?thesis
    proof (cases "refuses hst img g")
      case True
      with Cons.prems Inr have "r = Some HostError" "img' = img\<lparr>calls := calls img @ [Rejected g]\<rparr>"
        by (simp_all add: add_guide_def)
      then have "guides img' = guides img @ [] \<and>
           calls img' = calls img @ map Added [] @ [Rejected g] \<and>
           width img' = width img \<and> height img' = height img \<and>
           undo_depth img' = undo_depth img \<and> outcome (x # p) r [] [Rejected g]"
        using Inr by (simp add: outcome_def)
      then show ?thesis by blast
    next
      case False
      define img1 where "img1 = img\<lparr>guides := guides img @ [g], calls := calls img @ [Added g]\<rparr>"
      from Cons.prems Inr False have "exec hst p img1 = (r, img')"
        by (simp add: add_guide_def img1_def)
      from Cons.IH[OF this] obtain gs tail where
        ih: "guides img' = guides img1 @ gs" "calls img' = calls img1 @ map Added gs @ tail"
          "width img' = width img1" "height img' = height img1"
          "undo_depth img' = undo_depth img1" "outcome p r gs tail"
        by blast
      have "outcome (x # p) r (g # gs) tail"
        using ih(6) Inr unfolding outcome_def by auto
      then have "guides img' = guides img @ (g # gs) \<and>
           calls img' = calls img @ map Added (g # gs) @ tail \<and>
           width img' = width img \<and> height img' = height img \<and>
           undo_depth img' = undo_depth img \<and> outcome (x # p) r (g # gs) tail"
        using ih(1-5) by (simp add: img1_def)
      then show ?thesis by blast
    qed
  qed
qed

lemma place_guides_result:
  assumes "place_guides hst (Some img) cfg = (ret, io)"
  shows "\<exists>img' r gs tail. io = Some img' \<and> error ret = GLib_Error None \<and>
           status ret = (if r = None then SUCCESS else EXECUTION_ERROR) \<and>
           width img' = width img \<and> height img' = height img \<and>
           undo_depth img' = undo_depth img \<and>
           guides img' = guides img @ gs \<and>
           calls img' = calls img @ UndoGroupStart # map Added gs @ tail @ [UndoGroupEnd] \<and>
           outcome (plan cfg (width img) (height img)) r gs tail"
proof -
  define img0 where "img0 = undo_group_start img"
  obtain r img1 where ex: "exec hst (plan cfg (width img) (height img)) img0 = (r, img1)"
    by (cases "exec hst (plan cfg (width img) (height img)) img0") auto
  from exec_result[OF ex] obtain gs tail where
    res: "guides img1 = guides img0 @ gs" "calls img1 = calls img0 @ map Added gs @ tail"
      "width img1 = width img0" "height img1 = height img0"
      "undo_depth img1 = undo_depth img0"
      "outcome (plan cfg (width img) (height img)) r gs tail"
    by blast
  have pg: "(ret, io) = (new_return_values (if r = None then SUCCESS else EXECUTION_ERROR)
      (GLib_Error None), Some (undo_group_end img1))"
    using assms ex
    by (cases r) (simp_all add: place_guides_def get_width_def get_height_def try_body_exec
        img0_def[symmetric])
  have "io = Some (undo_group_end img1) \<and> error ret = GLib_Error None \<and>
           status ret = (if r = None then SUCCESS else EXECUTION_ERROR) \<and>
           width (undo_group_end img1) = width img \<and> height (undo_group_end img1) = height img \<and>
           undo_depth (undo_group_end img1) = undo_depth img \<and>
           guides (undo_group_end img1) = guides img @ gs \<and>
           calls (undo_group_end img1)
             = calls img @ UndoGroupStart # map Added gs @ tail @ [UndoGroupEnd] \<and>
           outcome (plan cfg (width img) (height img)) r gs tail"
    using pg res by (simp add: undo_group_end_def undo_group_start_def img0_def new_return_values_def)
  then show ?thesis by blast
qed

lemma run_quick_guides_cases:
  "run_quick_guides hst mode image_arg cfg =
     (if mode = INTERACTIVE \<and> \<not> fst (dialog_run hst cfg)
      then (new_return_values CANCEL (GLib_Error None), image_arg)
      else place_guides hst image_arg (params hst mode cfg))"
  by (cases "dialog_run hst cfg") (auto simp: run_quick_guides_def params_def)

section \<open>The guides of a successful plan\<close>

lemma map_guide_at_Inr:
  assumes "map (\<lambda>i. guide_at mk (f i)) is = map Inr xs"
  shows "\<exists>ps. xs = map mk ps \<and> map f is = map Inr ps"
  using assms
proof (induction "is" arbitrary: xs)
  case Nil
  then show ?case by simp
next
  case (Cons i rest)
  then obtain x xs' where xs: "xs = x # xs'" by (cases xs) auto
  with Cons.prems have hd: "guide_at mk (f i) = Inr x"
    and tl: "map (\<lambda>i. guide_at mk (f i)) rest = map Inr xs'" by simp_all
  from hd obtain p where p: "f i = Inr p" "x = mk p" by (cases "f i") auto
  from Cons.IH[OF tl] obtain ps where "xs' = map mk ps" "map f rest = map Inr ps" by blast
  then have "xs = map mk (p # ps) \<and> map f (i # rest) = map Inr (p # ps)"
    using xs p by simp
  then show ?case by blast
qed

lemma py_range_nth: "j < nat n \<Longrightarrow> py_range n ! j = int j"
  by (simp add: py_range_def)

lemma py_range_length: "length (py_range n) = nat n"
  by (simp add: py_range_def)

lemma split_plan_success:
  assumes "split_plan mk extent split = map Inr xs"
  shows "\<exists>ps. xs = map mk ps \<and> length ps = nat (split - 1) \<and>
           (\<forall>j < length ps. guide_pos extent split (int j) = Inr (ps ! j))"
proof (cases "split > 1")
  case True
  with assms have "map (\<lambda>i. guide_at mk (guide_pos extent split i)) (py_range (split - 1)) = map Inr xs"
    by (simp add: split_plan_def)
  from map_guide_at_Inr[OF this] obtain ps where ps: "xs = map mk ps"
    "map (guide_pos extent split) (py_range (split - 1)) = map Inr ps" by blast
  have "length (map (guide_pos extent split) (py_range (split - 1))) = length (map Inr ps)"
    by (simp add: ps(2))
  then have len: "length ps = nat (split - 1)"
    by (simp add: py_range_length)
  have "guide_pos extent split (int j) = Inr (ps ! j)" if "j < length ps" for j
  proof -
    have "map (guide_pos extent split) (py_range (split - 1)) ! j = map Inr ps ! j"
      by (simp only: ps(2))
    then show ?thesis using that len by (simp add: py_range_nth py_range_length)
  qed
  then show ?thesis using ps(1) len by blast
next
  case False
  with assms have "xs = []" by (simp add: split_plan_def)
  then show ?thesis using False by simp
qed

lemma centre_plan_success:
  assumes "centre_plan cfg W H = map Inr cs"
  shows "if make_centre cfg
         then \<exists>x y. centre_pos W = Inr x \<and> centre_pos H = Inr y \<and> cs = [VGuide x, HGuide y]
         else cs = []"
proof (cases "make_centre cfg")
  case True
  with assms have eq: "[guide_at VGuide (centre_pos W), guide_at HGuide (centre_pos H)] = map Inr cs"
    by (simp add: centre_plan_def)
  from eq[symmetric] obtain a b where cs: "cs = [a, b]"
    and "guide_at VGuide (centre_pos W) = Inr a" "guide_at HGuide (centre_pos H) = Inr b"
    by (auto simp: map_eq_Cons_conv)
  then obtain x y where "centre_pos W = Inr x" "a = VGuide x" "centre_pos H = Inr y" "b = HGuide y"
    by (cases "centre_pos W"; cases "centre_pos H") auto
  then show ?thesis using True cs by simp
next
  case False
  with assms show ?thesis by (simp add: centre_plan_def)
qed

lemma append_eq_mapD:
  "xs @ ys = map f zs \<Longrightarrow> \<exists>us vs. zs = us @ vs \<and> xs = map f us \<and> ys = map f vs"
  by (simp add: append_eq_map_conv)

lemma plan_success:
  assumes "plan cfg W H = map Inr gs"
  shows "\<exists>vs hs cs. gs = map VGuide vs @ map HGuide hs @ cs @ border_guides cfg W H \<and>
           length vs = nat (v_split cfg - 1) \<and>
           (\<forall>j < length vs. guide_pos W (v_split cfg) (int j) = Inr (vs ! j)) \<and>
           length hs = nat (h_split cfg - 1) \<and>
           (\<forall>j < length hs. guide_pos H (h_split cfg) (int j) = Inr (hs ! j)) \<and>
           (if make_centre cfg
            then \<exists>x y. centre_pos W = Inr x \<and> centre_pos H = Inr y \<and> cs = [VGuide x, HGuide y]
            else cs = [])"
proof -
  from assms obtain g1 r1 where 1: "gs = g1 @ r1" "split_plan VGuide W (v_split cfg) = map Inr g1"
    "split_plan HGuide H (h_split cfg) @ centre_plan cfg W H @ map Inr (border_guides cfg W H)
       = map Inr r1"
    using append_eq_mapD[OF assms[unfolded plan_def]] by blast
  obtain g2 r2 where 2: "r1 = g2 @ r2" "split_plan HGuide H (h_split cfg) = map Inr g2"
    "centre_plan cfg W H @ map Inr (border_guides cfg W H) = map Inr r2"
    using append_eq_mapD[OF 1(3)] by blast
  obtain cs r3 where 3: "r2 = cs @ r3" "centre_plan cfg W H = map Inr cs"
    "map Inr (border_guides cfg W H) = (map Inr r3 :: (exn + guide) list)"
    using append_eq_mapD[OF 2(3)] by blast
  from 3(3) have r3: "r3 = border_guides cfg W H"
    by (simp add: inj_map_eq_map)
  from split_plan_success[OF 1(2)] obtain vs where vs: "g1 = map VGuide vs"
    "length vs = nat (v_split cfg - 1)"
    "\<forall>j < length vs. guide_pos W (v_split cfg) (int j) = Inr (vs ! j)" by blast
  from split_plan_success[OF 2(2)] obtain hs where hs: "g2 = map HGuide hs"
    "length hs = nat (h_split cfg - 1)"
    "\<forall>j < length hs. guide_pos H (h_split cfg) (int j) = Inr (hs ! j)" by blast
  have eq: "gs = map VGuide vs @ map HGuide hs @ cs @ border_guides cfg W H"
    using 1(1) 2(1) 3(1) r3 vs(1) hs(1) by simp
  note c = centre_plan_success[OF 3(2)]
  show ?thesis
    apply (rule exI[of _ vs])
    apply (rule exI[of _ hs])
    apply (rule exI[of _ cs])
    apply (rule conjI, rule eq)
    apply (rule conjI, rule vs(2))
    apply (rule conjI, rule vs(3))
    apply (rule conjI, rule hs(2))
    apply (rule conjI, rule hs(3))
    apply (rule c)
    done
qed

section \<open>Order of the split positions\<close>

lemma split_order:
  fixes v W k k' p p' :: int
  assumes v: "0 < v" and W: "0 < W" and k: "0 < k" "k < k'"
    and p: "p \<le> W * k div v"
    and p': "W * k' div v - 1 \<le> p'" "\<not> v dvd W * k' \<longrightarrow> p' = W * k' div v"
  shows "p \<le> p'"
proof -
  define n where "n = W * k div v"
  define n' where "n' = W * k' div v"
  have lt: "W * k < W * k'" using W k by simp
  then have nn: "n \<le> n'" unfolding n_def n'_def using v by (intro zdiv_mono1) simp_all
  show ?thesis
  proof (cases "v dvd W * k'")
    case False
    then show ?thesis using p p' nn unfolding n_def n'_def by simp
  next
    case True
    then have e: "v * n' = W * k'" unfolding n'_def by simp
    have "v * n + W * k mod v = W * k" unfolding n_def by simp
    moreover have "0 \<le> W * k mod v" using v by simp
    ultimately have "v * n \<le> W * k" by linarith
    then have "v * n < v * n'" using lt e by simp
    then have "n < n'" using v by simp
    then show ?thesis using p p'(1) unfolding n_def n'_def by simp
  qed
qed

lemma split_strict:
  fixes v W k k' p p' :: int
  assumes v: "0 < v" "v \<le> W" and k: "0 < k" "k < k'"
    and p: "p \<le> W * k div v"
    and p': "W * k' div v - 1 \<le> p'" "\<not> v dvd W * k' \<longrightarrow> p' = W * k' div v"
    and ex: "v dvd W \<longrightarrow> p' = W * k' div v"
  shows "p < p'"
proof -
  define n where "n = W * k div v"
  define n' where "n' = W * k' div v"
  have W: "0 < W" using v by simp
  have k1: "k + 1 \<le> k'" using k by simp
  have "W * (k + 1) \<le> W * k'" using W k1 by (intro mult_left_mono) simp_all
  then have step: "W * k + W \<le> W * k'" by (simp add: algebra_simps)
  have "v * n + W * k mod v = W * k" unfolding n_def by simp
  moreover have "0 \<le> W * k mod v" using v by simp
  ultimately have vn: "v * n \<le> W * k" by linarith
  have "W * k + v \<le> W * k'" using step v by simp
  then have "(W * k + v) div v \<le> n'" unfolding n'_def using v by (intro zdiv_mono1) simp_all
  then have n1: "n + 1 \<le> n'" unfolding n_def using v by simp
  show ?thesis
  proof (cases "p' = n'")
    case True
    then show ?thesis using p n1 unfolding n_def by simp
  next
    case False
    then have dv: "v dvd W * k'" and ndv: "\<not> v dvd W" using p'(2) ex unfolding n'_def by auto
    from ndv v have "v < W" by (cases "v = W") simp_all
    from dv have e: "v * n' = W * k'" unfolding n'_def by simp
    have "v * n + v < v * n'" using vn step \<open>v < W\<close> e by simp
    then have "v * (n + 1) < v * n'" by (simp add: algebra_simps)
    then have "n + 1 < n'" using v by simp
    then show ?thesis using p p'(1) unfolding n_def n'_def by simp
  qed
qed

lemma evenly_splitI:
  assumes v: "2 \<le> v" "v \<le> 100" and W: "0 < W" "W < 2 ^ 44"
    and len: "length ps = nat (v - 1)"
    and pos: "\<forall>j < length ps. guide_pos W v (int j) = Inr (ps ! j)"
  shows "evenly_split W v ps"
proof -
  have v0: "0 < v" using v by simp
  have F: "W * (int j + 1) div v - 1 \<le> ps ! j \<and> ps ! j \<le> W * (int j + 1) div v \<and>
      (\<not> v dvd W * (int j + 1) \<longrightarrow> ps ! j = W * (int j + 1) div v) \<and>
      (v dvd W \<longrightarrow> ps ! j = W * (int j + 1) div v)" if j: "j < length ps" for j
  proof -
    have i: "0 \<le> int j" "int j + 2 \<le> v" using j len by simp_all
    have g: "guide_pos W v (int j) = Inr (ps ! j)" using pos j by simp
    from guide_pos_floor[OF W i v(2)] obtain p where p: "guide_pos W v (int j) = Inr p"
      "W * (int j + 1) div v - 1 \<le> p" "p \<le> W * (int j + 1) div v"
      "\<not> v dvd W * (int j + 1) \<longrightarrow> p = W * (int j + 1) div v" by blast
    from p(1) g have pj: "p = ps ! j" by simp
    have "ps ! j = W * (int j + 1) div v" if "v dvd W"
    proof -
      have "Inr (ps ! j) = (Inr (W * (int j + 1) div v) :: exn + int)"
        using guide_pos_exact[OF W that i v(2)] g by simp
      then show ?thesis by (simp only: sum.inject)
    qed
    with p(2-4) show ?thesis unfolding pj by blast
  qed
  have val: "ps ! nat (k - 1) = W * k div v"
    if "k \<in> {1..v - 1}" "\<not> v dvd W * k \<or> v dvd W" for k
  proof -
    have k1: "1 \<le> k" "k \<le> v - 1" using that(1) by simp_all
    have j: "nat (k - 1) < length ps" unfolding len using k1 by simp
    have e: "int (nat (k - 1)) + 1 = k" using k1 by simp
    from F[OF j] have "(\<not> v dvd W * k \<longrightarrow> ps ! nat (k - 1) = W * k div v) \<and>
      (v dvd W \<longrightarrow> ps ! nat (k - 1) = W * k div v)"
      unfolding e by blast
    with that(2) show ?thesis by blast
  qed
  have mono: "ps ! i \<le> ps ! j" if "i < j" "j < length ps" for i j
  proof -
    have "i < length ps" using that by simp
    note Fi = F[OF this] and Fj = F[OF that(2)]
    show ?thesis
    proof (rule split_order[OF v0 W(1), of "int i + 1" "int j + 1"])
      show "0 < int i + 1" by simp
      show "int i + 1 < int j + 1" using that(1) by simp
      show "ps ! i \<le> W * (int i + 1) div v" using Fi by blast
      show "W * (int j + 1) div v - 1 \<le> ps ! j" using Fj by blast
      show "\<not> v dvd W * (int j + 1) \<longrightarrow> ps ! j = W * (int j + 1) div v" using Fj by blast
    qed
  qed
  have strict: "ps ! i < ps ! j" if "v \<le> W" "i < j" "j < length ps" for i j
  proof -
    have "i < length ps" using that by simp
    note Fi = F[OF this] and Fj = F[OF that(3)]
    show ?thesis
    proof (rule split_strict[OF v0 that(1), of "int i + 1" "int j + 1"])
      show "0 < int i + 1" by simp
      show "int i + 1 < int j + 1" using that(2) by simp
      show "ps ! i \<le> W * (int i + 1) div v" using Fi by blast
      show "W * (int j + 1) div v - 1 \<le> ps ! j" using Fj by blast
      show "\<not> v dvd W * (int j + 1) \<longrightarrow> ps ! j = W * (int j + 1) div v" using Fj by blast
      show "v dvd W \<longrightarrow> ps ! j = W * (int j + 1) div v" using Fj by blast
    qed
  qed
  show ?thesis
    unfolding evenly_split_def
  proof (intro conjI)
    show "length ps = nat (v - 1)" by (rule len)
    show "\<forall>k \<in> {1..v - 1}. \<not> v dvd W * k \<or> v dvd W \<longrightarrow> ps ! nat (k - 1) = W * k div v"
      using val by blast
    show "sorted ps"
      unfolding sorted_iff_nth_mono_less using mono by blast
    show "v \<le> W \<longrightarrow> sorted_wrt (<) ps"
      unfolding sorted_wrt_iff_nth_less using strict by blast
  qed
qed

section \<open>Requested guides and the plan\<close>

lemma planned_map_Inr [simp]: "planned (map Inr gs) = gs"
  by (induction gs) simp_all

lemma planned_append [simp]: "planned (p @ q) = planned p @ planned q"
  by (induction p rule: planned.induct) simp_all

lemma verticals_append [simp]: "verticals (xs @ ys) = verticals xs @ verticals ys"
  by (induction xs rule: verticals.induct) simp_all

lemma horizontals_append [simp]: "horizontals (xs @ ys) = horizontals xs @ horizontals ys"
  by (induction xs rule: horizontals.induct) simp_all

lemma verticals_map [simp]:
  "verticals (map VGuide xs) = xs" "verticals (map HGuide xs) = []"
  by (induction xs) simp_all

lemma horizontals_map [simp]:
  "horizontals (map HGuide xs) = xs" "horizontals (map VGuide xs) = []"
  by (induction xs) simp_all

lemma requested_append [simp]: "requested (xs @ ys) = requested xs @ requested ys"
  by (induction xs rule: requested.induct) simp_all

lemma requested_map_Added [simp]: "requested (map Added gs) = gs"
  by (induction gs) simp_all

lemma prefix_verticals: "prefix xs ys \<Longrightarrow> prefix (verticals xs) (verticals ys)"
  by (auto simp: prefix_def)

lemma prefix_horizontals: "prefix xs ys \<Longrightarrow> prefix (horizontals xs) (horizontals ys)"
  by (auto simp: prefix_def)

lemma outcome_prefix:
  assumes "outcome p r gs tail"
  shows "prefix (gs @ requested tail) (planned p)"
  using assms unfolding outcome_def by (auto simp: prefix_def)

lemma outcome_success: "outcome p None gs tail \<Longrightarrow> tail = [] \<and> p = map Inr gs"
  by (auto simp: outcome_def)

lemma planned_guide_at:
  assumes "g \<in> set (planned (map (\<lambda>i. guide_at mk (f i)) is))"
  shows "\<exists>i p. i \<in> set is \<and> f i = Inr p \<and> g = mk p"
  using assms
proof (induction "is")
  case Nil
  then show ?case by simp
next
  case (Cons i rest)
  show ?case
  proof (cases "f i")
    case (Inl e)
    with Cons show ?thesis by auto
  next
    case (Inr p)
    with Cons show ?thesis by auto
  qed
qed

lemma planned_split_plan:
  assumes "g \<in> set (planned (split_plan mk extent split))"
  shows "\<exists>i p. 0 \<le> i \<and> i + 2 \<le> split \<and> guide_pos extent split i = Inr p \<and> g = mk p"
proof (cases "split > 1")
  case True
  with assms have "g \<in> set (planned (map (\<lambda>i. guide_at mk (guide_pos extent split i))
      (py_range (split - 1))))"
    by (simp add: split_plan_def)
  from planned_guide_at[OF this] obtain i p where
    "i \<in> set (py_range (split - 1))" "guide_pos extent split i = Inr p" "g = mk p" by blast
  moreover from this(1) have "0 \<le> i \<and> i + 2 \<le> split" by (simp add: py_range_def)
  ultimately show ?thesis by blast
next
  case False
  with assms show ?thesis by (simp add: split_plan_def)
qed

lemma planned_centre_plan:
  assumes "g \<in> set (planned (centre_plan cfg W H))"
  shows "(\<exists>x. centre_pos W = Inr x \<and> g = VGuide x) \<or> (\<exists>y. centre_pos H = Inr y \<and> g = HGuide y)"
  using assms
  by (cases "make_centre cfg"; cases "centre_pos W"; cases "centre_pos H")
    (auto simp: centre_plan_def)

lemma planned_in_canvas:
  assumes W: "0 < W" and H: "0 < H" and v: "v_split cfg \<le> 100" and h: "h_split cfg \<le> 100"
    and g: "g \<in> set (planned (plan cfg W H))"
  shows "in_canvas W H g"
proof -
  from g consider "g \<in> set (planned (split_plan VGuide W (v_split cfg)))"
    | "g \<in> set (planned (split_plan HGuide H (h_split cfg)))"
    | "g \<in> set (planned (centre_plan cfg W H))"
    | "g \<in> set (border_guides cfg W H)"
    by (auto simp: plan_def)
  then show ?thesis
  proof cases
    case 1
    from planned_split_plan[OF 1] obtain i p where
      i: "0 \<le> i" "i + 2 \<le> v_split cfg" and p: "guide_pos W (v_split cfg) i = Inr p" "g = VGuide p"
      by blast
    from guide_pos_range[OF p(1) W i v] show ?thesis by (simp add: p(2))
  next
    case 2
    from planned_split_plan[OF 2] obtain i p where
      i: "0 \<le> i" "i + 2 \<le> h_split cfg" and p: "guide_pos H (h_split cfg) i = Inr p" "g = HGuide p"
      by blast
    from guide_pos_range[OF p(1) H i h] show ?thesis by (simp add: p(2))
  next
    case 3
    from planned_centre_plan[OF 3] show ?thesis
      using centre_pos_range[OF _ W] centre_pos_range[OF _ H] by auto
  next
    case 4
    then show ?thesis using W H by (auto simp: border_guides_def split: if_splits)
  qed
qed

lemma verticals_planned_hsplit: "verticals (planned (split_plan HGuide extent split)) = []"
proof -
  have "verticals (planned (map (\<lambda>i. guide_at HGuide (f i)) is)) = []" for f :: "int \<Rightarrow> exn + int" and "is"
  proof (induction "is")
    case Nil
    show ?case by simp
  next
    case (Cons i rest)
    then show ?case by (cases "f i") simp_all
  qed
  then show ?thesis by (simp add: split_plan_def)
qed

lemma horizontals_planned_vsplit: "horizontals (planned (split_plan VGuide extent split)) = []"
proof -
  have "horizontals (planned (map (\<lambda>i. guide_at VGuide (f i)) is)) = []" for f :: "int \<Rightarrow> exn + int" and "is"
  proof (induction "is")
    case Nil
    show ?case by simp
  next
    case (Cons i rest)
    then show ?case by (cases "f i") simp_all
  qed
  then show ?thesis by (simp add: split_plan_def)
qed

lemma verticals_plan_no_split:
  assumes "v_split cfg = 1"
  shows "verticals (planned (plan cfg W H)) = other_positions (make_centre cfg) (draw_borders cfg) W"
proof -
  have "split_plan VGuide W (v_split cfg) = []" using assms by (simp add: split_plan_def)
  then show ?thesis
    by (cases "centre_pos W"; cases "centre_pos H")
      (simp_all add: plan_def verticals_planned_hsplit centre_plan_def
        border_guides_def other_positions_def)
qed

lemma horizontals_plan_no_split:
  assumes "h_split cfg = 1"
  shows "horizontals (planned (plan cfg W H)) = other_positions (make_centre cfg) (draw_borders cfg) H"
proof -
  have "split_plan HGuide H (h_split cfg) = []" using assms by (simp add: split_plan_def)
  then show ?thesis
    by (cases "centre_pos W"; cases "centre_pos H")
      (simp_all add: plan_def horizontals_planned_vsplit centre_plan_def
        border_guides_def other_positions_def)
qed

lemma run_result:
  assumes "run_quick_guides hst mode (Some img) cfg = (ret, io)"
  shows "status ret = CANCEL \<and> error ret = GLib_Error None \<and> io = Some img \<or>
         (\<exists>img' r gs tail. io = Some img' \<and> error ret = GLib_Error None \<and>
           status ret = (if r = None then SUCCESS else EXECUTION_ERROR) \<and>
           width img' = width img \<and> height img' = height img \<and>
           undo_depth img' = undo_depth img \<and>
           guides img' = guides img @ gs \<and>
           calls img' = calls img @ UndoGroupStart # map Added gs @ tail @ [UndoGroupEnd] \<and>
           outcome (plan (params hst mode cfg) (width img) (height img)) r gs tail)"
proof (cases "mode = INTERACTIVE \<and> \<not> fst (dialog_run hst cfg)")
  case True
  with assms have "ret = new_return_values CANCEL (GLib_Error None)" "io = Some img"
    by (simp_all add: run_quick_guides_cases)
  then show ?thesis by (simp add: new_return_values_def)
next
  case False
  with assms have "place_guides hst (Some img) (params hst mode cfg) = (ret, io)"
    by (simp add: run_quick_guides_cases)
  from place_guides_result[OF this] show ?thesis by blast
qed

lemma new_calls_append: "calls img' = calls img @ cs \<Longrightarrow> new_calls img img' = cs"
  by (simp add: new_calls_def)

lemma new_guides_append: "guides img' = guides img @ gs \<Longrightarrow> new_guides img img' = gs"
  by (simp add: new_guides_def)

lemma run_some:
  assumes "run_quick_guides hst mode (Some img) cfg = (ret, Some img')"
  shows "status ret = CANCEL \<and> img' = img \<or>
         (\<exists>r gs tail.
           status ret = (if r = None then SUCCESS else EXECUTION_ERROR) \<and>
           width img' = width img \<and> height img' = height img \<and>
           undo_depth img' = undo_depth img \<and>
           guides img' = guides img @ gs \<and> new_guides img img' = gs \<and>
           new_calls img img' = UndoGroupStart # map Added gs @ tail @ [UndoGroupEnd] \<and>
           outcome (plan (params hst mode cfg) (width img) (height img)) r gs tail)"
proof -
  from run_result[OF assms] show ?thesis
  proof
    assume "status ret = CANCEL \<and> error ret = GLib_Error None \<and> Some img' = Some img"
    then show ?thesis by simp
  next
    assume "\<exists>img'' r gs tail. Some img' = Some img'' \<and> error ret = GLib_Error None \<and>
           status ret = (if r = None then SUCCESS else EXECUTION_ERROR) \<and>
           width img'' = width img \<and> height img'' = height img \<and>
           undo_depth img'' = undo_depth img \<and>
           guides img'' = guides img @ gs \<and>
           calls img'' = calls img @ UndoGroupStart # map Added gs @ tail @ [UndoGroupEnd] \<and>
           outcome (plan (params hst mode cfg) (width img) (height img)) r gs tail"
    then obtain r gs tail where
      f: "status ret = (if r = None then SUCCESS else EXECUTION_ERROR)"
        "width img' = width img" "height img' = height img"
        "undo_depth img' = undo_depth img"
        "guides img' = guides img @ gs"
        "calls img' = calls img @ UndoGroupStart # map Added gs @ tail @ [UndoGroupEnd]"
        "outcome (plan (params hst mode cfg) (width img) (height img)) r gs tail"
      by auto
    note new_guides_append[OF f(5)] new_calls_append[OF f(6)]
    with f show ?thesis by blast
  qed
qed

lemma run_success:
  assumes "run_quick_guides hst mode (Some img) cfg = (ret, Some img')"
    and "status ret = SUCCESS"
  shows "plan (params hst mode cfg) (width img) (height img) = map Inr (new_guides img img')"
    and "guides img' = guides img @ new_guides img img'"
    and "width img' = width img" and "height img' = height img"
    and "new_calls img img' = UndoGroupStart # map Added (new_guides img img') @ [UndoGroupEnd]"
proof -
  from run_some[OF assms(1)] assms(2) obtain r gs tail where
    f: "status ret = (if r = None then SUCCESS else EXECUTION_ERROR)"
      "width img' = width img" "height img' = height img"
      "guides img' = guides img @ gs" "new_guides img img' = gs"
      "new_calls img img' = UndoGroupStart # map Added gs @ tail @ [UndoGroupEnd]"
      "outcome (plan (params hst mode cfg) (width img) (height img)) r gs tail"
    by auto
  from f(1) assms(2) have "r = None" by (simp split: if_splits)
  with f(7) have t: "tail = []" "plan (params hst mode cfg) (width img) (height img) = map Inr gs"
    using outcome_success by blast+
  show "plan (params hst mode cfg) (width img) (height img) = map Inr (new_guides img img')"
    using t(2) f(5) by simp
  show "guides img' = guides img @ new_guides img img'" using f(4,5) by simp
  show "width img' = width img" "height img' = height img" by (rule f(2), rule f(3))
  show "new_calls img img' = UndoGroupStart # map Added (new_guides img img') @ [UndoGroupEnd]"
    using f(6) t(1) f(5) by simp
qed

section \<open>Runs on a host that accepts every guide\<close>

lemma exec_never_refused:
  assumes "refuses hst = never_refuses"
  shows "exec hst (map Inr gs) img
       = (None, img\<lparr>guides := guides img @ gs, calls := calls img @ map Added gs\<rparr>)"
proof (induction gs arbitrary: img)
  case Nil
  show ?case by simp
next
  case (Cons g gs)
  have "add_guide hst g img
      = (None, img\<lparr>guides := guides img @ [g], calls := calls img @ [Added g]\<rparr>)"
    by (simp add: add_guide_def assms never_refuses_def)
  then show ?case by (simp add: Cons.IH)
qed

lemma run_never_refused:
  assumes "refuses hst = never_refuses" and "mode \<noteq> INTERACTIVE"
    and "plan cfg (width img) (height img) = map Inr gs"
  shows "run_quick_guides hst mode (Some img) cfg
       = (new_return_values SUCCESS (GLib_Error None),
          Some (img\<lparr>guides := guides img @ gs,
            calls := calls img @ UndoGroupStart # map Added gs @ [UndoGroupEnd]\<rparr>))"
  using assms(2)
  by (simp add: run_quick_guides_cases params_def place_guides_def get_width_def get_height_def
      try_body_exec undo_group_start_def undo_group_end_def assms(3)
      exec_never_refused[OF assms(1)])

lemma plan_122_14:
  "plan (vertical_bands 14) 122 1
     = map Inr (map VGuide [8, 17, 26, 34, 43, 52, 60, 69, 78, 87, 95, 104, 113])"
  by code_simp

lemma plan_1_3: "plan (vertical_bands 3) 1 1 = map Inr [VGuide 0, VGuide 0]"
  by code_simp

section \<open>Example runs\<close>

lemma thirds_run:
  "run_quick_guides willing_host NONINTERACTIVE (Some (blank_image 900 600)) thirds
     = (new_return_values SUCCESS (GLib_Error None), Some after_thirds)"
  by code_simp

lemma thirds_run_again:
  "run_quick_guides willing_host NONINTERACTIVE (Some after_thirds) thirds
     = (new_return_values SUCCESS (GLib_Error None), Some after_thirds_twice)"
  by code_simp

lemma borders_run:
  "run_quick_guides willing_host NONINTERACTIVE (Some (blank_image 800 400)) borders_only
     = (new_return_values SUCCESS (GLib_Error None), Some after_borders)"
  by code_simp

lemma refused_run:
  "run_quick_guides vertical_only_host INTERACTIVE (Some (blank_image 900 600)) thirds
     = (new_return_values EXECUTION_ERROR (GLib_Error None), Some after_refusal)"
  by code_simp

lemma status_new [simp]: "status (new_return_values st err) = st"
  by (simp add: new_return_values_def)

lemma error_new [simp]: "error (new_return_values st err) = err"
  by (simp add: new_return_values_def)

section \<open>The properties\<close>

text \<open>
  C1, as amended. A successful invocation adds \<open>v_split - 1\<close> vertical split guides and
  then \<open>h_split - 1\<close> horizontal ones, followed only by the centre and border guides.
  For a split count from 2 to 100 and an extent below \<open>2 ^ 44\<close> the positions on that
  axis are \<open>evenly_split\<close>: the \<open>k\<close>-th is \<open>\<lfloor>extent * k / split\<rfloor>\<close> whenever that
  quotient is not an integer or the split count divides the extent, they never decrease,
  and they increase when the extent is at least the split count.
\<close>

theorem split_guides_evenly_spaced:
  assumes "run_quick_guides hst mode (Some img) cfg = (ret, Some img')"
    and "status ret = SUCCESS"
  shows "\<exists>vs hs rest.
      new_guides img img' = map VGuide vs @ map HGuide hs @ rest \<and>
      length vs = nat (v_split (params hst mode cfg) - 1) \<and>
      length hs = nat (h_split (params hst mode cfg) - 1) \<and>
      length rest = (if make_centre (params hst mode cfg) then 2 else 0)
        + (if draw_borders (params hst mode cfg) then 4 else 0) \<and>
      (2 \<le> v_split (params hst mode cfg) \<and> v_split (params hst mode cfg) \<le> 100 \<and>
       0 < width img \<and> width img < 2 ^ 44 \<longrightarrow>
         evenly_split (width img) (v_split (params hst mode cfg)) vs) \<and>
      (2 \<le> h_split (params hst mode cfg) \<and> h_split (params hst mode cfg) \<le> 100 \<and>
       0 < height img \<and> height img < 2 ^ 44 \<longrightarrow>
         evenly_split (height img) (h_split (params hst mode cfg)) hs)"
proof -
  let ?c = "params hst mode cfg"
  from plan_success[OF run_success(1)[OF assms]] obtain vs hs cs where
    d: "new_guides img img' = map VGuide vs @ map HGuide hs @ cs @ border_guides ?c (width img) (height img)"
    and vs: "length vs = nat (v_split ?c - 1)"
      "\<forall>j < length vs. guide_pos (width img) (v_split ?c) (int j) = Inr (vs ! j)"
    and hs: "length hs = nat (h_split ?c - 1)"
      "\<forall>j < length hs. guide_pos (height img) (h_split ?c) (int j) = Inr (hs ! j)"
    and cs: "if make_centre ?c
       then \<exists>x y. centre_pos (width img) = Inr x \<and> centre_pos (height img) = Inr y \<and>
         cs = [VGuide x, HGuide y]
       else cs = []"
    by blast
  have lc: "length cs = (if make_centre ?c then 2 else 0)"
    using cs by (auto split: if_splits)
  have lb: "length (border_guides ?c (width img) (height img)) = (if draw_borders ?c then 4 else 0)"
    by (simp add: border_guides_def)
  have v: "evenly_split (width img) (v_split ?c) vs"
    if "2 \<le> v_split ?c \<and> v_split ?c \<le> 100 \<and> 0 < width img \<and> width img < 2 ^ 44"
    using that vs by (intro evenly_splitI) simp_all
  have h: "evenly_split (height img) (h_split ?c) hs"
    if "2 \<le> h_split ?c \<and> h_split ?c \<le> 100 \<and> 0 < height img \<and> height img < 2 ^ 44"
    using that hs by (intro evenly_splitI) simp_all
  show ?thesis
    apply (rule exI[of _ vs])
    apply (rule exI[of _ hs])
    apply (rule exI[of _ "cs @ border_guides ?c (width img) (height img)"])
    using d vs(1) hs(1) lc lb v h by simp
qed

theorem split_guides_evenly_spaced_witness:
  "run_quick_guides willing_host NONINTERACTIVE (Some (blank_image 900 600)) thirds
     = (new_return_values SUCCESS (GLib_Error None), Some after_thirds) \<and>
   status (new_return_values SUCCESS (GLib_Error None)) = SUCCESS \<and>
   (\<exists>vs hs rest.
      new_guides (blank_image 900 600) after_thirds = map VGuide vs @ map HGuide hs @ rest \<and>
      length vs = 2 \<and> length hs = 2 \<and> length rest = 2 \<and>
      evenly_split 900 3 vs \<and> evenly_split 600 3 hs)"
proof -
  have s: "status (new_return_values SUCCESS (GLib_Error None)) = SUCCESS" by simp
  have p: "params willing_host NONINTERACTIVE thirds = thirds" by (simp add: params_def)
  from split_guides_evenly_spaced[OF thirds_run s] obtain vs hs rest where
    "new_guides (blank_image 900 600) after_thirds = map VGuide vs @ map HGuide hs @ rest"
    "length vs = 2" "length hs = 2" "length rest = 2"
    "evenly_split 900 3 vs" "evenly_split 600 3 hs"
    unfolding p by (auto simp: thirds_def blank_image_def)
  then show ?thesis using thirds_run s by blast
qed

text \<open>
  The statement without the restrictions fails twice. On a width of 122 with 14 bands the
  seventh guide is at 60, not at \<open>\<lfloor>122 * 7 / 14\<rfloor> = 61\<close>: the float \<open>122 / 14\<close> is
  below the exact quotient and the product with 7 stays below 61. On a width of 1 with 3
  bands both guides are at 0, so the positions do not increase.
\<close>

theorem split_guides_counterexample:
  "run_quick_guides willing_host NONINTERACTIVE (Some (blank_image 122 1)) (vertical_bands 14)
     = (new_return_values SUCCESS (GLib_Error None),
        Some \<lparr>width = 122, height = 1,
          guides = map VGuide [8, 17, 26, 34, 43, 52, 60, 69, 78, 87, 95, 104, 113],
          undo_depth = 0,
          calls = UndoGroupStart
            # map Added (map VGuide [8, 17, 26, 34, 43, 52, 60, 69, 78, 87, 95, 104, 113])
            @ [UndoGroupEnd]\<rparr>) \<and>
   [8, 17, 26, 34, 43, 52, 60, 69, 78, 87, 95, 104, 113] ! 6 \<noteq> (122 * 7 div 14 :: int) \<and>
   run_quick_guides willing_host NONINTERACTIVE (Some (blank_image 1 1)) (vertical_bands 3)
     = (new_return_values SUCCESS (GLib_Error None),
        Some \<lparr>width = 1, height = 1, guides = [VGuide 0, VGuide 0], undo_depth = 0,
          calls = [UndoGroupStart, Added (VGuide 0), Added (VGuide 0), UndoGroupEnd]\<rparr>) \<and>
   \<not> sorted_wrt (<) [0, 0 :: int]"
proof -
  have w: "refuses willing_host = never_refuses" by (simp add: willing_host_def)
  have a: "plan (vertical_bands 14) (width (blank_image 122 1)) (height (blank_image 122 1))
      = map Inr (map VGuide [8, 17, 26, 34, 43, 52, 60, 69, 78, 87, 95, 104, 113])"
    by (simp only: blank_image_def image.simps plan_122_14)
  have b: "plan (vertical_bands 3) (width (blank_image 1 1)) (height (blank_image 1 1))
      = map Inr [VGuide 0, VGuide 0]"
    by (simp only: blank_image_def image.simps plan_1_3)
  show ?thesis
    using run_never_refused[OF w _ a, of NONINTERACTIVE] run_never_refused[OF w _ b, of NONINTERACTIVE]
    by (simp add: blank_image_def)
qed

text \<open>
  C2. With \<open>v_split = 1\<close> the only vertical positions an invocation passes to the host
  are those of the centre and border steps, in that order, and a successful invocation adds
  exactly those; the same holds for \<open>h_split = 1\<close> and the horizontal positions.
\<close>

theorem no_split_guides_for_one_band:
  assumes "run_quick_guides hst mode (Some img) cfg = (ret, Some img')"
  shows "(v_split (params hst mode cfg) = 1 \<longrightarrow>
            prefix (verticals (requested (new_calls img img')))
              (other_positions (make_centre (params hst mode cfg))
                 (draw_borders (params hst mode cfg)) (width img)) \<and>
            (status ret = SUCCESS \<longrightarrow>
               verticals (new_guides img img')
                 = other_positions (make_centre (params hst mode cfg))
                     (draw_borders (params hst mode cfg)) (width img))) \<and>
         (h_split (params hst mode cfg) = 1 \<longrightarrow>
            prefix (horizontals (requested (new_calls img img')))
              (other_positions (make_centre (params hst mode cfg))
                 (draw_borders (params hst mode cfg)) (height img)) \<and>
            (status ret = SUCCESS \<longrightarrow>
               horizontals (new_guides img img')
                 = other_positions (make_centre (params hst mode cfg))
                     (draw_borders (params hst mode cfg)) (height img)))"
proof -
  let ?c = "params hst mode cfg"
  let ?p = "plan ?c (width img) (height img)"
  have pre: "prefix (requested (new_calls img img')) (planned ?p)"
    using run_some[OF assms]
  proof
    assume "status ret = CANCEL \<and> img' = img"
    then show ?thesis by (simp add: new_calls_def)
  next
    assume "\<exists>r gs tail.
           status ret = (if r = None then SUCCESS else EXECUTION_ERROR) \<and>
           width img' = width img \<and> height img' = height img \<and>
           undo_depth img' = undo_depth img \<and>
           guides img' = guides img @ gs \<and> new_guides img img' = gs \<and>
           new_calls img img' = UndoGroupStart # map Added gs @ tail @ [UndoGroupEnd] \<and>
           outcome ?p r gs tail"
    then obtain r gs tail where
      "new_calls img img' = UndoGroupStart # map Added gs @ tail @ [UndoGroupEnd]"
      "outcome ?p r gs tail" by blast
    then show ?thesis using outcome_prefix[of ?p r gs tail] by simp
  qed
  have suc: "planned ?p = new_guides img img'" if "status ret = SUCCESS"
    using run_success(1)[OF assms that] by simp
  show ?thesis
    using prefix_verticals[OF pre] prefix_horizontals[OF pre] suc
      verticals_plan_no_split[of ?c "width img" "height img"]
      horizontals_plan_no_split[of ?c "width img" "height img"]
    by auto
qed

theorem no_split_guides_for_one_band_witness:
  "run_quick_guides willing_host NONINTERACTIVE (Some (blank_image 800 400)) borders_only
     = (new_return_values SUCCESS (GLib_Error None), Some after_borders) \<and>
   v_split (params willing_host NONINTERACTIVE borders_only) = 1 \<and>
   h_split (params willing_host NONINTERACTIVE borders_only) = 1 \<and>
   verticals (new_guides (blank_image 800 400) after_borders) = [0, 800] \<and>
   horizontals (new_guides (blank_image 800 400) after_borders) = [0, 400]"
proof -
  have p: "params willing_host NONINTERACTIVE borders_only = borders_only"
    by (simp add: params_def)
  show ?thesis
    using no_split_guides_for_one_band[OF borders_run] borders_run
    unfolding p by (simp add: borders_only_def other_positions_def blank_image_def)
qed

text \<open>
  C3. With \<open>make_centre\<close> set, a successful invocation on an image of positive width and
  height adds, after the split guides and before the border guides, one vertical guide at
  \<open>\<lfloor>W / 2\<rfloor>\<close> and one horizontal guide at \<open>\<lfloor>H / 2\<rfloor>\<close>, whatever the split counts and
  \<open>draw_borders\<close> are. The width and the height are those the host reports: it holds them
  as 32-bit C integers, so they are below \<open>2 ^ 31\<close>, and the theorem asks only that they
  are below \<open>2 ^ 53\<close>, where the division by two is exact in binary64.
\<close>

theorem centre_guides_at_half:
  assumes "run_quick_guides hst mode (Some img) cfg = (ret, Some img')"
    and "status ret = SUCCESS"
    and "make_centre (params hst mode cfg)"
    and "0 < width img" "width img < 2 ^ 53" "0 < height img" "height img < 2 ^ 53"
  shows "\<exists>vs hs.
      new_guides img img'
        = map VGuide vs @ map HGuide hs
          @ [VGuide (width img div 2), HGuide (height img div 2)]
          @ border_guides (params hst mode cfg) (width img) (height img) \<and>
      length vs = nat (v_split (params hst mode cfg) - 1) \<and>
      length hs = nat (h_split (params hst mode cfg) - 1)"
proof -
  let ?c = "params hst mode cfg"
  from plan_success[OF run_success(1)[OF assms(1,2)]] obtain vs hs cs where
    d: "new_guides img img' = map VGuide vs @ map HGuide hs @ cs @ border_guides ?c (width img) (height img)"
    and vs: "length vs = nat (v_split ?c - 1)"
    and hs: "length hs = nat (h_split ?c - 1)"
    and cs: "if make_centre ?c
       then \<exists>x y. centre_pos (width img) = Inr x \<and> centre_pos (height img) = Inr y \<and>
         cs = [VGuide x, HGuide y]
       else cs = []"
    by blast
  from cs assms(3) obtain x y where
    xy: "centre_pos (width img) = Inr x" "centre_pos (height img) = Inr y" "cs = [VGuide x, HGuide y]"
    by auto
  have "x = width img div 2" "y = height img div 2"
    using xy(1,2) centre_pos_exact[OF assms(4,5)] centre_pos_exact[OF assms(6,7)] by simp_all
  with d xy(3) vs hs show ?thesis by auto
qed

theorem centre_guides_at_half_witness:
  "run_quick_guides willing_host NONINTERACTIVE (Some (blank_image 900 600)) thirds
     = (new_return_values SUCCESS (GLib_Error None), Some after_thirds) \<and>
   make_centre (params willing_host NONINTERACTIVE thirds) \<and>
   (0::int) < 900 \<and> (900::int) < 2 ^ 53 \<and> (0::int) < 600 \<and> (600::int) < 2 ^ 53 \<and>
   (\<exists>vs hs.
      new_guides (blank_image 900 600) after_thirds
        = map VGuide vs @ map HGuide hs @ [VGuide 450, HGuide 300] \<and>
      length vs = 2 \<and> length hs = 2)"
proof -
  have s: "status (new_return_values SUCCESS (GLib_Error None)) = SUCCESS" by simp
  have p: "params willing_host NONINTERACTIVE thirds = thirds" by (simp add: params_def)
  have c: "make_centre (params willing_host NONINTERACTIVE thirds)"
    unfolding p by (simp add: thirds_def)
  have b: "0 < width (blank_image 900 600)" "width (blank_image 900 600) < 2 ^ 53"
    "0 < height (blank_image 900 600)" "height (blank_image 900 600) < 2 ^ 53"
    by (simp_all add: blank_image_def)
  from centre_guides_at_half[OF thirds_run s c b] obtain vs hs where
    "new_guides (blank_image 900 600) after_thirds
        = map VGuide vs @ map HGuide hs @ [VGuide 450, HGuide 300]"
    "length vs = 2" "length hs = 2"
    unfolding p by (auto simp: thirds_def blank_image_def border_guides_def)
  then show ?thesis using thirds_run c by auto
qed

text \<open>
  C4. With \<open>draw_borders\<close> set, the last four guides of a successful invocation are the
  vertical guide at 0, the horizontal guide at 0, the vertical guide at \<open>W\<close> and the
  horizontal guide at \<open>H\<close>; all guides before them come from the split and centre steps.
\<close>

theorem border_guides_added:
  assumes "run_quick_guides hst mode (Some img) cfg = (ret, Some img')"
    and "status ret = SUCCESS"
    and "draw_borders (params hst mode cfg)"
  shows "\<exists>gs.
      new_guides img img'
        = gs @ [VGuide 0, HGuide 0, VGuide (width img), HGuide (height img)] \<and>
      length gs = nat (v_split (params hst mode cfg) - 1)
        + nat (h_split (params hst mode cfg) - 1)
        + (if make_centre (params hst mode cfg) then 2 else 0)"
proof -
  let ?c = "params hst mode cfg"
  from plan_success[OF run_success(1)[OF assms(1,2)]] obtain vs hs cs where
    d: "new_guides img img' = map VGuide vs @ map HGuide hs @ cs @ border_guides ?c (width img) (height img)"
    and vs: "length vs = nat (v_split ?c - 1)"
    and hs: "length hs = nat (h_split ?c - 1)"
    and cs: "if make_centre ?c
       then \<exists>x y. centre_pos (width img) = Inr x \<and> centre_pos (height img) = Inr y \<and>
         cs = [VGuide x, HGuide y]
       else cs = []"
    by blast
  have lc: "length cs = (if make_centre ?c then 2 else 0)"
    using cs by (auto split: if_splits)
  have "new_guides img img'
      = (map VGuide vs @ map HGuide hs @ cs)
        @ [VGuide 0, HGuide 0, VGuide (width img), HGuide (height img)]"
    using d assms(3) by (simp add: border_guides_def)
  moreover have "length (map VGuide vs @ map HGuide hs @ cs)
      = nat (v_split ?c - 1) + nat (h_split ?c - 1) + (if make_centre ?c then 2 else 0)"
    using vs hs lc by simp
  ultimately show ?thesis by blast
qed

theorem border_guides_added_witness:
  "run_quick_guides willing_host NONINTERACTIVE (Some (blank_image 800 400)) borders_only
     = (new_return_values SUCCESS (GLib_Error None), Some after_borders) \<and>
   draw_borders (params willing_host NONINTERACTIVE borders_only) \<and>
   (\<exists>gs. new_guides (blank_image 800 400) after_borders
        = gs @ [VGuide 0, HGuide 0, VGuide 800, HGuide 400] \<and> length gs = 0)"
proof -
  have s: "status (new_return_values SUCCESS (GLib_Error None)) = SUCCESS" by simp
  have p: "params willing_host NONINTERACTIVE borders_only = borders_only"
    by (simp add: params_def)
  have c: "draw_borders (params willing_host NONINTERACTIVE borders_only)"
    unfolding p by (simp add: borders_only_def)
  from border_guides_added[OF borders_run s c] obtain gs where
    "new_guides (blank_image 800 400) after_borders
        = gs @ [VGuide 0, HGuide 0, VGuide 800, HGuide 400]" "length gs = 0"
    unfolding p by (auto simp: borders_only_def blank_image_def)
  then show ?thesis using borders_run c by blast
qed

text \<open>
  C5, as amended. Without an image the procedure returns without an image to act on: no
  undo group is opened and no guide is added, the host calls of the model being calls on
  the image. The status is \<open>CALLING_ERROR\<close>, except that an interactive run whose dialog
  was cancelled has returned \<open>CANCEL\<close> before the image is looked at.
\<close>

theorem no_image_no_effect:
  "snd (run_quick_guides hst mode None cfg) = None \<and>
   status (fst (run_quick_guides hst mode None cfg))
     = (if mode = INTERACTIVE \<and> \<not> fst (dialog_run hst cfg) then CANCEL else CALLING_ERROR)"
  by (simp add: run_quick_guides_cases place_guides_def)

theorem no_image_no_effect_witness:
  "snd (run_quick_guides willing_host NONINTERACTIVE None thirds) = None \<and>
   status (fst (run_quick_guides willing_host NONINTERACTIVE None thirds)) = CALLING_ERROR"
  using no_image_no_effect[of willing_host NONINTERACTIVE thirds] by simp

text \<open>
  The exception is real: the dialog runs at lines 33 to 42, before the test of line 50.
\<close>

theorem no_image_counterexample:
  "status (fst (run_quick_guides cancelling_host INTERACTIVE None thirds)) = CANCEL \<and>
   CANCEL \<noteq> CALLING_ERROR"
  by (simp add: run_quick_guides_cases cancelling_host_def cancel_dialog_def)

text \<open>
  C6. When the host refuses a guide, the status is \<open>EXECUTION_ERROR\<close>, the refused call is
  the last one before the undo group is closed, the number of open undo groups is what it
  was, and the guides added before the refusal are on the image.
\<close>

theorem failure_keeps_guides:
  assumes "run_quick_guides hst mode (Some img) cfg = (ret, Some img')"
    and "Rejected g \<in> set (new_calls img img')"
  shows "status ret = EXECUTION_ERROR \<and> undo_depth img' = undo_depth img \<and>
         (\<exists>gs. new_calls img img' = UndoGroupStart # map Added gs @ [Rejected g, UndoGroupEnd] \<and>
            guides img' = guides img @ gs)"
  using run_some[OF assms(1)]
proof
  assume "status ret = CANCEL \<and> img' = img"
  then have "new_calls img img' = []" by (simp add: new_calls_def)
  with assms(2) show ?thesis by simp
next
  assume "\<exists>r gs tail.
           status ret = (if r = None then SUCCESS else EXECUTION_ERROR) \<and>
           width img' = width img \<and> height img' = height img \<and>
           undo_depth img' = undo_depth img \<and>
           guides img' = guides img @ gs \<and> new_guides img img' = gs \<and>
           new_calls img img' = UndoGroupStart # map Added gs @ tail @ [UndoGroupEnd] \<and>
           outcome (plan (params hst mode cfg) (width img) (height img)) r gs tail"
  then obtain r gs tail where
    f: "status ret = (if r = None then SUCCESS else EXECUTION_ERROR)"
      "undo_depth img' = undo_depth img"
      "guides img' = guides img @ gs"
      "new_calls img img' = UndoGroupStart # map Added gs @ tail @ [UndoGroupEnd]"
      "outcome (plan (params hst mode cfg) (width img) (height img)) r gs tail"
    by blast
  from assms(2) f(4) have "Rejected g \<in> set tail" by auto
  with f(5) have t: "tail = [Rejected g]" "r = Some HostError"
    unfolding outcome_def by auto
  have "status ret = EXECUTION_ERROR" using f(1) t(2) by simp
  moreover have "new_calls img img' = UndoGroupStart # map Added gs @ [Rejected g, UndoGroupEnd]"
    using f(4) t(1) by simp
  ultimately show ?thesis using f(2,3) by blast
qed

theorem failure_keeps_guides_witness:
  "run_quick_guides vertical_only_host INTERACTIVE (Some (blank_image 900 600)) thirds
     = (new_return_values EXECUTION_ERROR (GLib_Error None), Some after_refusal) \<and>
   Rejected (HGuide 200) \<in> set (new_calls (blank_image 900 600) after_refusal) \<and>
   status (new_return_values EXECUTION_ERROR (GLib_Error None)) = EXECUTION_ERROR \<and>
   undo_depth after_refusal = undo_depth (blank_image 900 600) \<and>
   (\<exists>gs. new_calls (blank_image 900 600) after_refusal
        = UndoGroupStart # map Added gs @ [Rejected (HGuide 200), UndoGroupEnd] \<and>
      guides after_refusal = guides (blank_image 900 600) @ gs)"
proof -
  have r: "Rejected (HGuide 200) \<in> set (new_calls (blank_image 900 600) after_refusal)"
    by (simp add: new_calls_def blank_image_def after_refusal_def)
  show ?thesis
    using failure_keeps_guides[OF refused_run r] refused_run r by blast
qed

text \<open>
  C7. An invocation on an image either makes no call at all (the cancelled dialog) or
  makes the calls \<open>UndoGroupStart\<close>, then guide insertions only, then \<open>UndoGroupEnd\<close>: the
  group is opened before any guide is touched and closed exactly once, as the last call,
  whether the insertions succeed or not, and no undo group stays open.
\<close>

theorem undo_group_closed:
  assumes "run_quick_guides hst mode (Some img) cfg = (ret, io)"
  shows "\<exists>img'. io = Some img' \<and> undo_depth img' = undo_depth img \<and>
           calls img' = calls img @ new_calls img img' \<and>
           (new_calls img img' = [] \<and> guides img' = guides img \<or>
            (\<exists>body. new_calls img img' = UndoGroupStart # body @ [UndoGroupEnd] \<and>
               UndoGroupStart \<notin> set body \<and> UndoGroupEnd \<notin> set body))"
  using run_result[OF assms]
proof
  assume "status ret = CANCEL \<and> error ret = GLib_Error None \<and> io = Some img"
  then have "io = Some img \<and> undo_depth img = undo_depth img \<and>
           calls img = calls img @ new_calls img img \<and>
           (new_calls img img = [] \<and> guides img = guides img)"
    by (simp add: new_calls_def)
  then show ?thesis by blast
next
  assume "\<exists>img' r gs tail. io = Some img' \<and> error ret = GLib_Error None \<and>
           status ret = (if r = None then SUCCESS else EXECUTION_ERROR) \<and>
           width img' = width img \<and> height img' = height img \<and>
           undo_depth img' = undo_depth img \<and>
           guides img' = guides img @ gs \<and>
           calls img' = calls img @ UndoGroupStart # map Added gs @ tail @ [UndoGroupEnd] \<and>
           outcome (plan (params hst mode cfg) (width img) (height img)) r gs tail"
  then obtain img' r gs tail where
    f: "io = Some img'" "undo_depth img' = undo_depth img"
      "calls img' = calls img @ UndoGroupStart # map Added gs @ tail @ [UndoGroupEnd]"
      "outcome (plan (params hst mode cfg) (width img) (height img)) r gs tail"
    by blast
  have nc: "new_calls img img' = UndoGroupStart # (map Added gs @ tail) @ [UndoGroupEnd]"
    using new_calls_append[OF f(3)] by simp
  have "tail = [] \<or> (\<exists>g. tail = [Rejected g])"
    using f(4) unfolding outcome_def by auto
  then have body: "UndoGroupStart \<notin> set (map Added gs @ tail)"
    "UndoGroupEnd \<notin> set (map Added gs @ tail)"
    by auto
  have "calls img' = calls img @ new_calls img img'" using f(3) nc by simp
  with f(1,2) nc body show ?thesis by blast
qed

theorem undo_group_closed_witness:
  "run_quick_guides willing_host NONINTERACTIVE (Some (blank_image 900 600)) thirds
     = (new_return_values SUCCESS (GLib_Error None), Some after_thirds) \<and>
   undo_depth after_thirds = undo_depth (blank_image 900 600) \<and>
   (\<exists>body. new_calls (blank_image 900 600) after_thirds
        = UndoGroupStart # body @ [UndoGroupEnd] \<and>
      UndoGroupStart \<notin> set body \<and> UndoGroupEnd \<notin> set body)"
proof -
  have n: "new_calls (blank_image 900 600) after_thirds \<noteq> []"
    by (simp add: new_calls_def blank_image_def after_thirds_def)
  show ?thesis
    using undo_group_closed[OF thirds_run] thirds_run n by auto
qed

text \<open>
  C8. On an image with positive width and height and with both split counts from 1 to 100,
  every guide passed to the host, accepted or refused, lies on the canvas: a vertical guide
  in \<open>[0, W]\<close>, a horizontal one in \<open>[0, H]\<close>.
\<close>

theorem guide_positions_in_canvas:
  assumes "run_quick_guides hst mode (Some img) cfg = (ret, Some img')"
    and "0 < width img" "0 < height img"
    and "1 \<le> h_split (params hst mode cfg)" "h_split (params hst mode cfg) \<le> 100"
    and "1 \<le> v_split (params hst mode cfg)" "v_split (params hst mode cfg) \<le> 100"
  shows "\<forall>g \<in> set (requested (new_calls img img')). in_canvas (width img) (height img) g"
proof -
  let ?p = "plan (params hst mode cfg) (width img) (height img)"
  have sub: "set (requested (new_calls img img')) \<subseteq> set (planned ?p)"
    using run_some[OF assms(1)]
  proof
    assume "status ret = CANCEL \<and> img' = img"
    then show ?thesis by (simp add: new_calls_def)
  next
    assume "\<exists>r gs tail.
           status ret = (if r = None then SUCCESS else EXECUTION_ERROR) \<and>
           width img' = width img \<and> height img' = height img \<and>
           undo_depth img' = undo_depth img \<and>
           guides img' = guides img @ gs \<and> new_guides img img' = gs \<and>
           new_calls img img' = UndoGroupStart # map Added gs @ tail @ [UndoGroupEnd] \<and>
           outcome ?p r gs tail"
    then obtain r gs tail where
      f: "new_calls img img' = UndoGroupStart # map Added gs @ tail @ [UndoGroupEnd]"
      "outcome ?p r gs tail" by blast
    have "prefix (requested (new_calls img img')) (planned ?p)"
      using outcome_prefix[OF f(2)] f(1) by simp
    then show ?thesis by (rule set_mono_prefix)
  qed
  show ?thesis
  proof
    fix g
    assume "g \<in> set (requested (new_calls img img'))"
    with sub have "g \<in> set (planned ?p)" by blast
    then show "in_canvas (width img) (height img) g"
      by (rule planned_in_canvas[OF assms(2,3,7,5)])
  qed
qed

theorem guide_positions_in_canvas_witness:
  "run_quick_guides willing_host NONINTERACTIVE (Some (blank_image 900 600)) thirds
     = (new_return_values SUCCESS (GLib_Error None), Some after_thirds) \<and>
   (0::int) < 900 \<and> (0::int) < 600 \<and>
   1 \<le> h_split (params willing_host NONINTERACTIVE thirds) \<and>
   h_split (params willing_host NONINTERACTIVE thirds) \<le> 100 \<and>
   1 \<le> v_split (params willing_host NONINTERACTIVE thirds) \<and>
   v_split (params willing_host NONINTERACTIVE thirds) \<le> 100 \<and>
   requested (new_calls (blank_image 900 600) after_thirds) = thirds_guides \<and>
   list_all (in_canvas 900 600) thirds_guides"
proof -
  have p: "params willing_host NONINTERACTIVE thirds = thirds" by (simp add: params_def)
  have b: "0 < width (blank_image 900 600)" "0 < height (blank_image 900 600)"
    by (simp_all add: blank_image_def)
  have c: "1 \<le> h_split (params willing_host NONINTERACTIVE thirds)"
    "h_split (params willing_host NONINTERACTIVE thirds) \<le> 100"
    "1 \<le> v_split (params willing_host NONINTERACTIVE thirds)"
    "v_split (params willing_host NONINTERACTIVE thirds) \<le> 100"
    unfolding p by (simp_all add: thirds_def)
  have r: "requested (new_calls (blank_image 900 600) after_thirds) = thirds_guides"
    by (simp add: new_calls_def blank_image_def after_thirds_def)
  have "list_all (in_canvas 900 600) thirds_guides"
    using guide_positions_in_canvas[OF thirds_run b c]
    unfolding r list_all_iff by (simp add: blank_image_def)
  then show ?thesis using thirds_run c r by simp
qed

text \<open>
  C9. The procedure is not idempotent: a second successful invocation with the same
  parameters appends the same guides again, so two invocations add twice as many guides as
  one.
\<close>

theorem repeated_invocation_duplicates:
  assumes "run_quick_guides hst mode (Some img) cfg = (ret1, Some img1)"
    and "status ret1 = SUCCESS"
    and "run_quick_guides hst mode (Some img1) cfg = (ret2, Some img2)"
    and "status ret2 = SUCCESS"
  shows "new_guides img1 img2 = new_guides img img1 \<and>
         guides img2 = guides img @ new_guides img img1 @ new_guides img img1 \<and>
         length (new_guides img img2) = 2 * length (new_guides img img1)"
proof -
  note a = run_success[OF assms(1,2)] and b = run_success[OF assms(3,4)]
  have "map Inr (new_guides img1 img2) = (map Inr (new_guides img img1) :: (exn + guide) list)"
    using a(1) b(1) unfolding a(3) a(4) by simp
  then have same: "new_guides img1 img2 = new_guides img img1"
    by (simp add: inj_map_eq_map)
  have g2: "guides img2 = guides img @ new_guides img img1 @ new_guides img img1"
    using a(2) b(2) same by simp
  have "new_guides img img2 = new_guides img img1 @ new_guides img img1"
    by (rule new_guides_append) (rule g2)
  then show ?thesis using same g2 by simp
qed

theorem repeated_invocation_duplicates_witness:
  "run_quick_guides willing_host NONINTERACTIVE (Some (blank_image 900 600)) thirds
     = (new_return_values SUCCESS (GLib_Error None), Some after_thirds) \<and>
   run_quick_guides willing_host NONINTERACTIVE (Some after_thirds) thirds
     = (new_return_values SUCCESS (GLib_Error None), Some after_thirds_twice) \<and>
   guides after_thirds = thirds_guides \<and>
   guides after_thirds_twice = thirds_guides @ thirds_guides \<and>
   length (new_guides (blank_image 900 600) after_thirds_twice)
     = 2 * length (new_guides (blank_image 900 600) after_thirds)"
proof -
  have s: "status (new_return_values SUCCESS (GLib_Error None)) = SUCCESS" by simp
  have g1: "guides after_thirds = thirds_guides" by (simp add: after_thirds_def)
  have g2: "guides after_thirds_twice = thirds_guides @ thirds_guides"
    by (simp add: after_thirds_twice_def)
  have l: "length (new_guides (blank_image 900 600) after_thirds_twice)
      = 2 * length (new_guides (blank_image 900 600) after_thirds)"
    using repeated_invocation_duplicates[OF thirds_run s thirds_run_again s] by blast
  show ?thesis
    by (intro conjI thirds_run thirds_run_again g1 g2 l)
qed

text \<open>
  C10. On every return path the error that accompanies the status is \<^verbatim>\<open>GLib.Error()\<close>,
  constructed without a message.
\<close>

theorem error_always_empty:
  "error (fst (run_quick_guides hst mode image_arg cfg)) = GLib_Error None"
proof (cases image_arg)
  case None
  then show ?thesis by (simp add: run_quick_guides_cases place_guides_def)
next
  case (Some img)
  obtain ret io where r: "run_quick_guides hst mode (Some img) cfg = (ret, io)"
    by (cases "run_quick_guides hst mode (Some img) cfg") auto
  from run_result[OF r] have "error ret = GLib_Error None" by blast
  then show ?thesis using r Some by simp
qed

theorem error_always_empty_witness:
  "error (fst (run_quick_guides vertical_only_host INTERACTIVE (Some (blank_image 900 600)) thirds))
     = GLib_Error None \<and>
   status (fst (run_quick_guides vertical_only_host INTERACTIVE (Some (blank_image 900 600)) thirds))
     = EXECUTION_ERROR"
  using error_always_empty[of vertical_only_host INTERACTIVE "Some (blank_image 900 600)" thirds]
  by (simp add: refused_run)

end
